theory Spec2Isabelle
  imports Main
begin

section \<open>Runtime data model\<close>

text \<open>
  Modelled from the spec: the declaration of \<open>MetadataState\<close> is not among the sources.
  The spec gives the closed set of node states; the constructors carry the names that the
  pipestance code compares against.
\<close>

datatype MetadataState =
  Waiting | Ready | Queued | Running | Complete | Failed | DisabledState | ForkWaiting

text \<open>
  Nodes are heap objects reached through pointers (\<open>*Node\<close>); a pointer is a number and the
  heap maps it to the node's attributes. \<open>Node_err_paths\<close> is the last component of what
  \<open>node.getFatalError()\<close> returns and \<open>Node_metadatas\<close> the handles that
  \<open>node.collectMetadatas()\<close> returns; both methods live outside the sources.
\<close>

type_synonym node_ref = nat
type_synonym meta_ref = nat

record Node =
  Node_name :: string
  Node_fqname :: string
  Node_path :: string
  Node_parent :: node_ref
  state :: MetadataState
  Node_err_paths :: "string list"
  Node_metadatas :: "meta_ref list"

text \<open>
  \<open>threadSafeNodeMap\<close>: a map from names to nodes. The association list fixes one
  iteration order of the Go map.
\<close>

type_synonym threadSafeNodeMap = "(string \<times> node_ref) list"

definition GetNodes :: "threadSafeNodeMap \<Rightarrow> node_ref list" where
  "GetNodes m = map snd m"

subsection \<open>Metadata directories\<close>

text \<open>
  Modelled from the spec: the declaration of \<open>MetadataFileName\<close> is not among the sources.
  These are the well-known file names of the spec's vocabulary that the pipestance code
  uses.
\<close>

datatype MetadataFileName =
  Lock | Perf | FinalState | MetadataZip | JobId | JobModeFile | TimestampFile
  | VersionsFile | UiPort | UuidFile | Errors | Heartbeat

text \<open>
  Modelled from the spec: the \<open>Metadata\<close> type and its methods are not among the sources.
  The spec describes a handle to a directory with an in-memory read cache, offering an
  existence test, raw and typed writes, a timestamp write, remove and explicit cache
  (re)loading. A directory is a partial map from file names to contents, the file system
  maps directory paths to directories, and a handle holds its path and the cached set of
  names. \<open>exists\<close> consults the cache, which is why the pipestance code calls
  \<open>loadCache\<close> before it tests for \<open>Lock\<close>, \<open>Perf\<close>, \<open>FinalState\<close> and \<open>MetadataZip\<close>.
\<close>

type_synonym dir = "MetadataFileName \<Rightarrow> string option"
type_synonym filesys = "string \<Rightarrow> dir"

record Metadata =
  Metadata_path :: string
  Metadata_cache :: "MetadataFileName \<Rightarrow> bool"

definition loadCache :: "filesys \<Rightarrow> Metadata \<Rightarrow> Metadata" where
  "loadCache fs m = m\<lparr>Metadata_cache := (\<lambda>n. fs (Metadata_path m) n \<noteq> None)\<rparr>"

definition exists :: "Metadata \<Rightarrow> MetadataFileName \<Rightarrow> bool" where
  "exists m n = Metadata_cache m n"

definition fs_write :: "filesys \<Rightarrow> string \<Rightarrow> MetadataFileName \<Rightarrow> string \<Rightarrow> filesys" where
  "fs_write fs p n text = fs(p := (fs p)(n \<mapsto> text))"

definition fs_remove :: "filesys \<Rightarrow> string \<Rightarrow> MetadataFileName \<Rightarrow> filesys" where
  "fs_remove fs p n = fs(p := (fs p)(n := None))"

subsection \<open>The runtime state and the pipestance\<close>

text \<open>
  Everything a pipestance method can read or change besides the pipestance object itself:
  the node heap, the shared frontier map, the handles of the node metadata, the file
  system, the runtime configuration, and the state of whatever lies behind the methods that
  are not among the sources (job managers, forks), kept abstract in \<open>rt\<close>. The field
  \<open>io_log\<close> records, in order, each write that reached a metadata directory, so that
  statements about how often something is written can be made.
\<close>

datatype io_event =
  FileWritten string MetadataFileName
  | ZipFailed string

record Config =
  Config_JobMode :: string
  Config_Zip :: bool
  Config_OnFinishHandler :: string

record 'rt World =
  heap :: "node_ref \<Rightarrow> Node"
  frontierNodes :: threadSafeNodeMap
  metas :: "meta_ref \<Rightarrow> Metadata"
  fs :: filesys
  config :: Config
  io_log :: "io_event list"
  rt :: 'rt

text \<open>
  The \<open>Pipestance\<close> struct. \<open>queueCheckLock\<close> has no field: the sections it guards are
  single transitions of the model. \<open>lastQueueCheck\<close> is \<open>None\<close> for the zero
  \<open>time.Time\<close> and otherwise a reading of the monotonic clock in nanoseconds.
\<close>

record Pipestance =
  node :: node_ref
  metadata :: Metadata
  uuid :: string
  allNodesCache :: "node_ref list option"
  queueCheckActive :: bool
  lastQueueCheck :: "int option"

text \<open>
  Modelled from the spec: \<open>Node.getFrontierNodes\<close> is not among the sources. The frontier
  is the set of nodes that the scheduler visits in a step; it is kept in the
  \<open>threadSafeNodeMap\<close> that \<open>NewTopNode\<close> creates and the nodes share.
\<close>

definition getFrontierNodes :: "'rt World \<Rightarrow> node_ref list" where
  "getFrontierNodes w = GetNodes (frontierNodes w)"

definition getNode :: "Pipestance \<Rightarrow> 'rt World \<Rightarrow> Node" where
  "getNode ps w = heap w (node ps)"

definition readOnly :: "Pipestance \<Rightarrow> bool" where
  "readOnly ps = (\<not> exists (metadata ps) Lock)"

text \<open>
  \<open>Pipestance.allNodes\<close> with its cache. \<open>Node.allNodes\<close> is not among the sources; it
  is the parameter \<open>subtree\<close>, which gives, for a node, the nodes of its subtree.
\<close>

definition allNodes ::
  "(node_ref \<Rightarrow> node_ref list) \<Rightarrow> Pipestance \<Rightarrow> node_ref list \<times> Pipestance" where
  "allNodes subtree ps =
     (case allNodesCache ps of
        None \<Rightarrow> (let ns = subtree (node ps) in (ns, ps\<lparr>allNodesCache := Some ns\<rparr>))
      | Some ns \<Rightarrow> (ns, ps))"

section \<open>State aggregation\<close>

text \<open>The three loop shapes of \<open>Pipestance.GetState\<close>, each with its early exit.\<close>

fun anyInState :: "(node_ref \<Rightarrow> Node) \<Rightarrow> MetadataState \<Rightarrow> node_ref list \<Rightarrow> bool" where
  "anyInState h s [] = False"
| "anyInState h s (n # ns) = (if state (h n) = s then True else anyInState h s ns)"

fun everyDisabled :: "(node_ref \<Rightarrow> Node) \<Rightarrow> node_ref list \<Rightarrow> bool" where
  "everyDisabled h [] = True"
| "everyDisabled h (n # ns) =
     (if state (h n) \<noteq> DisabledState then False else everyDisabled h ns)"

fun everyCompleteOrDisabled :: "(node_ref \<Rightarrow> Node) \<Rightarrow> node_ref list \<Rightarrow> bool" where
  "everyCompleteOrDisabled h [] = True"
| "everyCompleteOrDisabled h (n # ns) =
     (if state (h n) \<noteq> Complete \<and> state (h n) \<noteq> DisabledState then False
      else everyCompleteOrDisabled h ns)"

definition GetState ::
  "(node_ref \<Rightarrow> node_ref list) \<Rightarrow> Pipestance \<Rightarrow> 'rt World \<Rightarrow> MetadataState \<times> Pipestance" where
  "GetState subtree ps w =
     (let nodes = getFrontierNodes w in
      if anyInState (heap w) Failed nodes then (Failed, ps)
      else if anyInState (heap w) Running nodes then (Running, ps)
      else
        (let (all1, ps1) = allNodes subtree ps in
         if everyDisabled (heap w) all1 then (DisabledState, ps1)
         else
           (let (all2, ps2) = allNodes subtree ps1 in
            if everyCompleteOrDisabled (heap w) all2 then (Complete, ps2)
            else (ForkWaiting, ps2))))"

subsection \<open>Example pipestances\<close>

definition mkNode :: "MetadataState \<Rightarrow> Node" where
  "mkNode s = \<lparr>Node_name = ''STAGE'', Node_fqname = ''ID.ps1.PIPE.STAGE'',
     Node_path = ''/ps1/PIPE/STAGE'', Node_parent = 0, state = s,
     Node_err_paths = [''/ps1/PIPE/STAGE/fork0/_errors''], Node_metadatas = []\<rparr>"

definition mkMetadata :: "string \<Rightarrow> Metadata" where
  "mkMetadata p = \<lparr>Metadata_path = p, Metadata_cache = (\<lambda>n. False)\<rparr>"

definition mkConfig :: Config where
  "mkConfig = \<lparr>Config_JobMode = ''local'', Config_Zip = True,
     Config_OnFinishHandler = ''notify.sh''\<rparr>"

text \<open>
  A world whose node \<open>i\<close> has the \<open>i\<close>-th of the given states, whose frontier is the
  given list of nodes and whose disk is empty; and a pipestance over nodes \<open>0 .. n - 1\<close>.
\<close>

definition mkWorld :: "MetadataState list \<Rightarrow> node_ref list \<Rightarrow> unit World" where
  "mkWorld ss fr = \<lparr>heap = (\<lambda>i. mkNode (if i < length ss then ss ! i else Waiting)),
     frontierNodes = map (\<lambda>i. (''n'', i)) fr, metas = (\<lambda>i. mkMetadata ''/ps1/PIPE''),
     fs = (\<lambda>p n. None), config = mkConfig, io_log = [], rt = ()\<rparr>"

definition mkPipestance :: Pipestance where
  "mkPipestance = \<lparr>node = 0, metadata = mkMetadata ''/ps1'', uuid = [],
     allNodesCache = None, queueCheckActive = False, lastQueueCheck = None\<rparr>"

definition mkSubtree :: "nat \<Rightarrow> node_ref \<Rightarrow> node_ref list" where
  "mkSubtree n r = [0 ..< n]"

section \<open>The compiler's pass sequence\<close>

text \<open>
  \<open>Ast.compile\<close> calls six methods of the AST, none of which is among the sources. They
  are a parameter \<open>run\<close>: given the name of a pass and the AST, a pass returns its error
  (\<open>None\<close> for \<open>nil\<close>) and the AST as it leaves it. So that one can say which passes were
  run, each call is recorded, by name and in order, next to the AST.
\<close>

datatype pass =
  compileTypes | Callables_compile | compileStages
  | compilePipelineDecs | compilePipelineArgs | compileCall

definition invoke ::
  "(pass \<Rightarrow> 'a \<Rightarrow> 'e option \<times> 'a) \<Rightarrow> pass \<Rightarrow> 'a \<times> pass list \<Rightarrow> 'e option \<times> 'a \<times> pass list" where
  "invoke run p s = (case run p (fst s) of (err, a) \<Rightarrow> (err, a, snd s @ [p]))"

definition compile ::
  "(pass \<Rightarrow> 'a \<Rightarrow> 'e option \<times> 'a) \<Rightarrow> 'a \<Rightarrow> 'e option \<times> 'a \<times> pass list" where
  "compile run global =
     (case invoke run compileTypes (global, []) of
        (Some err, s1) \<Rightarrow> (Some err, s1)
      | (None, s1) \<Rightarrow>
     (case invoke run Callables_compile s1 of
        (Some err, s2) \<Rightarrow> (Some err, s2)
      | (None, s2) \<Rightarrow>
     (case invoke run compileStages s2 of
        (Some err, s3) \<Rightarrow> (Some err, s3)
      | (None, s3) \<Rightarrow>
     (case invoke run compilePipelineDecs s3 of
        (Some err, s4) \<Rightarrow> (Some err, s4)
      | (None, s4) \<Rightarrow>
     (case invoke run compilePipelineArgs s4 of
        (Some err, s5) \<Rightarrow> (Some err, s5)
      | (None, s5) \<Rightarrow>
     (case invoke run compileCall s5 of
        (Some err, s6) \<Rightarrow> (Some err, s6)
      | (None, s6) \<Rightarrow> (None, s6)))))))"

text \<open>
  The spec's description, to compare with: a list of passes is run in order and the first
  error ends the run. \<open>after\<close> is the AST that a sequence of passes leaves behind.
\<close>

definition six_passes :: "pass list" where
  "six_passes = [compileTypes, Callables_compile, compileStages,
     compilePipelineDecs, compilePipelineArgs, compileCall]"

fun run_in_order ::
  "(pass \<Rightarrow> 'a \<Rightarrow> 'e option \<times> 'a) \<Rightarrow> pass list \<Rightarrow> 'a \<times> pass list \<Rightarrow> 'e option \<times> 'a \<times> pass list" where
  "run_in_order run [] s = (None, s)"
| "run_in_order run (p # ps) s =
     (case invoke run p s of
        (Some err, s') \<Rightarrow> (Some err, s')
      | (None, s') \<Rightarrow> run_in_order run ps s')"

fun after :: "(pass \<Rightarrow> 'a \<Rightarrow> 'e option \<times> 'a) \<Rightarrow> pass list \<Rightarrow> 'a \<Rightarrow> 'a" where
  "after run [] a = a"
| "after run (p # ps) a = after run ps (snd (run p a))"

text \<open>An example: every pass counts itself on the AST, and one chosen pass fails.\<close>

definition failing_at :: "pass \<Rightarrow> pass \<Rightarrow> nat \<Rightarrow> string option \<times> nat" where
  "failing_at bad p a = (if p = bad then Some ''DuplicateNameError'' else None, Suc a)"

section \<open>The invocation binder\<close>

text \<open>
  The parts of the \<open>syntax\<close> package's AST that \<open>wrapStageAsPipeline\<close> and
  \<open>NewPipestance\<close> touch. Their declarations are not among the sources; fields the two
  functions never mention are left out, except \<open>Pipeline_Id\<close> and \<open>Pipeline_Retain\<close>,
  which keep their zero values in a wrapped pipeline.
\<close>

datatype ExpKind = KindCall | KindSelf

datatype Exp = RefExp ExpKind string string | ValExp string

record Param =
  Param_Id :: string
  Param_Tname :: string

record BindStm =
  BindStm_Id :: string
  BindStm_Tname :: string
  BindStm_Exp :: Exp

record BindStms =
  BindStms_List :: "BindStm list"
  BindStms_Table :: "string \<Rightarrow> BindStm option"

record CallStm =
  CallStm_Id :: string
  CallStm_DecId :: string

record Stage =
  Stage_Node :: nat
  Stage_Id :: string
  Stage_OutParams :: "Param list"

record Pipeline =
  Pipeline_Node :: nat
  Pipeline_Id :: string
  Pipeline_Calls :: "CallStm list"
  Pipeline_Ret :: BindStms
  Pipeline_Retain :: "string list option"

datatype Callable = StageDec Stage | PipelineDec Pipeline

datatype error =
  RuntimeError string
  | PipestanceLockedError string string
  | DiskSpaceError string
  | OtherError string

text \<open>The loop of \<open>wrapStageAsPipeline\<close> over \<open>stage.OutParams.List\<close>.\<close>

fun wrapReturns :: "Stage \<Rightarrow> Param list \<Rightarrow> BindStms \<Rightarrow> BindStms" where
  "wrapReturns stage [] returns = returns"
| "wrapReturns stage (param # params) returns =
     (let binding = \<lparr>BindStm_Id = Param_Id param, BindStm_Tname = Param_Tname param,
                      BindStm_Exp = RefExp KindCall (Stage_Id stage) (Param_Id param)\<rparr>
      in wrapReturns stage params
           (returns\<lparr>BindStms_List := BindStms_List returns @ [binding],
                    BindStms_Table := (BindStms_Table returns)(Param_Id param \<mapsto> binding)\<rparr>))"

definition wrapStageAsPipeline :: "CallStm \<Rightarrow> Stage \<Rightarrow> Pipeline" where
  "wrapStageAsPipeline call stage =
     (let returns = wrapReturns stage (Stage_OutParams stage)
                      \<lparr>BindStms_List = [], BindStms_Table = (\<lambda>k. None)\<rparr>
      in \<lparr>Pipeline_Node = Stage_Node stage, Pipeline_Id = [], Pipeline_Calls = [call],
          Pipeline_Ret = returns, Pipeline_Retain = None\<rparr>)"

text \<open>
  The start of \<open>NewPipestance\<close>: the choice of the pipeline whose calls become the
  subnodes. (What follows in the source builds the nodes with \<open>NewNode\<close>,
  \<open>NewReturnBinding\<close> and \<open>buildForks\<close>, none of which is among the sources.) A
  callable is a stage or a pipeline, so the source's last branch has no input here.
\<close>

definition NewPipestance_pipeline ::
  "(string \<Rightarrow> Callable option) \<Rightarrow> CallStm \<Rightarrow> error + Pipeline" where
  "NewPipestance_pipeline callables callStm =
     (case callables (CallStm_DecId callStm) of
        None \<Rightarrow> Inl (RuntimeError
                  ([CHR 0x27] @ CallStm_DecId callStm @ [CHR 0x27]
                   @ '' is not a declared stage or pipeline''))
      | Some (PipelineDec p) \<Rightarrow> Inr p
      | Some (StageDec s) \<Rightarrow> Inr (wrapStageAsPipeline callStm s))"

definition wrapped_binding :: "Stage \<Rightarrow> Param \<Rightarrow> BindStm" where
  "wrapped_binding stage param =
     \<lparr>BindStm_Id = Param_Id param, BindStm_Tname = Param_Tname param,
      BindStm_Exp = RefExp KindCall (Stage_Id stage) (Param_Id param)\<rparr>"

definition exStage :: Stage where
  "exStage = \<lparr>Stage_Node = 7, Stage_Id = ''SUM_SQUARES'',
     Stage_OutParams = [\<lparr>Param_Id = ''sum'', Param_Tname = ''float''\<rparr>,
                        \<lparr>Param_Id = ''log'', Param_Tname = ''path''\<rparr>]\<rparr>"

definition exCall :: CallStm where
  "exCall = \<lparr>CallStm_Id = ''SQUARES'', CallStm_DecId = ''SUM_SQUARES''\<rparr>"

definition exCallables :: "string \<Rightarrow> Callable option" where
  "exCallables = (\<lambda>k. None)(''SUM_SQUARES'' \<mapsto> StageDec exStage)"

section \<open>Pipestance operations\<close>

text \<open>
  Modelled from the spec: \<open>Metadata.WriteRaw\<close>, \<open>Write\<close> and \<open>WriteTime\<close> are not
  among the sources. Each creates or replaces one file of the handle's directory; the three
  differ in the text written, which is an argument here. The handle's cache learns of the
  file, and the write is recorded.
\<close>

definition Metadata_Write ::
  "Metadata \<Rightarrow> MetadataFileName \<Rightarrow> string \<Rightarrow> 'rt World \<Rightarrow> Metadata \<times> 'rt World" where
  "Metadata_Write m n text w =
     (m\<lparr>Metadata_cache := (Metadata_cache m)(n := True)\<rparr>,
      w\<lparr>fs := fs_write (fs w) (Metadata_path m) n text,
        io_log := io_log w @ [FileWritten (Metadata_path m) n]\<rparr>)"

definition os_Remove :: "string \<times> MetadataFileName \<Rightarrow> 'rt World \<Rightarrow> 'rt World" where
  "os_Remove f w = w\<lparr>fs := fs_remove (fs w) (fst f) (snd f)\<rparr>"

definition all_names :: "MetadataFileName list" where
  "all_names = [Lock, Perf, FinalState, MetadataZip, JobId, JobModeFile, TimestampFile,
     VersionsFile, UiPort, UuidFile, Errors, Heartbeat]"

text \<open>
  Modelled from the spec: \<open>Metadata.glob\<close> is not among the sources. It lists the files
  present in the handle's directory.
\<close>

definition glob :: "filesys \<Rightarrow> Metadata \<Rightarrow> (string \<times> MetadataFileName) list" where
  "glob f m = map (\<lambda>n. (Metadata_path m, n)) (filter (\<lambda>n. f (Metadata_path m) n \<noteq> None) all_names)"

text \<open>
  Modelled from the spec: \<open>Node.removeMetadata\<close> is not among the sources. It removes
  what is left of the node's metadata directories once their files are in the zip.
\<close>

definition removeMetadata :: "node_ref \<Rightarrow> 'rt World \<Rightarrow> 'rt World" where
  "removeMetadata n w =
     w\<lparr>fs := fold (\<lambda>r f. f(Metadata_path (metas w r) := (\<lambda>k. None)))
                  (Node_metadatas (heap w n)) (fs w)\<rparr>"

text \<open>
  The methods and library functions that the pipestance code calls and that are not among
  the sources. They are parameters of the model, named after what they stand for. The
  first argument of \<open>JobManager_refreshResources\<close> tells whether it is the local job
  manager's method that is called, and \<open>JobManager_isLocal\<close> whether the job manager is
  the local one. \<open>JobManager_hasQueueCheck\<close> is \<open>None\<close> when there is no job manager
  (a \<open>nil\<close> pointer). \<open>Metadata_failNotRunning\<close>, a method of \<open>Metadata\<close>, works on
  its handle and on the files. \<open>CreateZip\<close> is only the outcome of the call; what a
  successful call leaves on disk is written out in \<open>ZipMetadata\<close>. \<open>stateString\<close> is
  the conversion \<open>string(state)\<close>.
\<close>

record 'rt ops =
  Node_allNodes :: "node_ref \<Rightarrow> node_ref list"
  Node_step :: "node_ref \<Rightarrow> 'rt World \<Rightarrow> bool \<times> 'rt World"
  Node_kill :: "string \<Rightarrow> node_ref \<Rightarrow> 'rt World \<Rightarrow> 'rt World"
  Node_reset :: "node_ref \<Rightarrow> 'rt World \<Rightarrow> error option \<times> 'rt World"
  Metadata_clearReadCache :: "Metadata \<Rightarrow> Metadata"
  Metadata_getState :: "Metadata \<Rightarrow> filesys \<Rightarrow> MetadataState option"
  Metadata_failNotRunning :: "string \<Rightarrow> Metadata \<Rightarrow> filesys \<Rightarrow> Metadata \<times> filesys"
  Node_checkHeartbeats :: "node_ref \<Rightarrow> 'rt World \<Rightarrow> 'rt World"
  CheckMinimalSpace :: "string \<Rightarrow> 'rt World \<Rightarrow> error option"
  JobManager_refreshResources :: "bool \<Rightarrow> bool \<Rightarrow> 'rt World \<Rightarrow> 'rt World"
  JobManager_isLocal :: "'rt World \<Rightarrow> bool"
  JobManager_hasQueueCheck :: "'rt World \<Rightarrow> bool option"
  JobManager_checkQueue :: "string list \<Rightarrow> 'rt \<Rightarrow> (string list \<times> string) \<times> 'rt"
  CreateZip :: "string \<Rightarrow> (string \<times> MetadataFileName) list \<Rightarrow> 'rt World \<Rightarrow> error option"
  Serialize :: "MetadataFileName \<Rightarrow> node_ref list \<Rightarrow> 'rt World \<Rightarrow> string"
  stateString :: "MetadataState \<Rightarrow> string"
  LookPath :: "string \<Rightarrow> string option"
  filepath_Rel :: "string \<Rightarrow> string \<Rightarrow> string"
  filepath_Dir :: "string \<Rightarrow> string"

definition GetPath :: "Pipestance \<Rightarrow> 'rt World \<Rightarrow> string" where
  "GetPath ps w = Node_path (heap w (Node_parent (getNode ps w)))"

definition GetPname :: "Pipestance \<Rightarrow> 'rt World \<Rightarrow> string" where
  "GetPname ps w = Node_name (getNode ps w)"

definition GetPsid :: "Pipestance \<Rightarrow> 'rt World \<Rightarrow> string" where
  "GetPsid ps w = Node_name (heap w (Node_parent (getNode ps w)))"

subsection \<open>Kill, step and reset\<close>

definition KillWithMessage ::
  "'rt ops \<Rightarrow> string \<Rightarrow> Pipestance \<Rightarrow> 'rt World \<Rightarrow> 'rt World" where
  "KillWithMessage ops message ps w =
     (if readOnly ps then w
      else fold (Node_kill ops message) (getFrontierNodes w) w)"

fun stepFrontier ::
  "'rt ops \<Rightarrow> node_ref list \<Rightarrow> bool \<Rightarrow> 'rt World \<Rightarrow> bool \<times> 'rt World" where
  "stepFrontier ops [] hadProgress w = (hadProgress, w)"
| "stepFrontier ops (n # ns) hadProgress w =
     (case Node_step ops n w of (p, w') \<Rightarrow> stepFrontier ops ns (p \<or> hadProgress) w')"

definition clearReadCaches :: "'rt ops \<Rightarrow> node_ref list \<Rightarrow> 'rt World \<Rightarrow> 'rt World" where
  "clearReadCaches ops ns w =
     fold (\<lambda>n w1. fold (\<lambda>r w2. w2\<lparr>metas := (metas w2)(r := Metadata_clearReadCache ops (metas w2 r))\<rparr>)
                    (Node_metadatas (heap w1 n)) w1) ns w"

definition StepNodes ::
  "'rt ops \<Rightarrow> Pipestance \<Rightarrow> 'rt World \<Rightarrow> bool \<times> Pipestance \<times> 'rt World" where
  "StepNodes ops ps w =
     (if readOnly ps then (False, ps, w)
      else
        (case CheckMinimalSpace ops (Node_path (getNode ps w)) w of
           Some (DiskSpaceError msg) \<Rightarrow> (False, ps, KillWithMessage ops msg ps w)
         | _ \<Rightarrow>
           (let w1 = JobManager_refreshResources ops True (Config_JobMode (config w) = ''local'') w;
                w2 = (if \<not> JobManager_isLocal ops w1
                      then JobManager_refreshResources ops False False w1 else w1);
                (hadProgress, w3) = stepFrontier ops (getFrontierNodes w2) False w2;
                (all, ps1) = allNodes (Node_allNodes ops) ps
            in (hadProgress, ps1, clearReadCaches ops all w3))))"

fun resetFailed :: "'rt ops \<Rightarrow> node_ref list \<Rightarrow> 'rt World \<Rightarrow> error option \<times> 'rt World" where
  "resetFailed ops [] w = (None, w)"
| "resetFailed ops (n # ns) w =
     (if state (heap w n) = Failed then
        (case Node_reset ops n w of
           (Some err, w') \<Rightarrow> (Some err, w')
         | (None, w') \<Rightarrow> resetFailed ops ns w')
      else resetFailed ops ns w)"

definition Reset ::
  "'rt ops \<Rightarrow> Pipestance \<Rightarrow> 'rt World \<Rightarrow> error option \<times> Pipestance \<times> 'rt World" where
  "Reset ops ps w =
     (if readOnly ps then (Some (RuntimeError ''Pipestance is in read only mode.''), ps, w)
      else
        (let (all, ps1) = allNodes (Node_allNodes ops) ps;
             (err, w1) = resetFailed ops all w
         in (err, ps1, w1)))"

text \<open>
  Example parameters: node methods that fail whatever node they touch, a serializer, and
  a zip that succeeds.
\<close>

definition failNode :: "node_ref \<Rightarrow> unit World \<Rightarrow> unit World" where
  "failNode n w = w\<lparr>heap := (heap w)(n := (heap w n)\<lparr>state := Failed\<rparr>)\<rparr>"

definition failingOps :: "unit ops" where
  "failingOps = \<lparr>Node_allNodes = mkSubtree 2,
     Node_step = (\<lambda>n w. (True, failNode n w)),
     Node_kill = (\<lambda>msg n w. failNode n w),
     Node_reset = (\<lambda>n w. (None, failNode n w)),
     Metadata_clearReadCache = (\<lambda>m. m),
     Metadata_getState = (\<lambda>m f. Some Running),
     Metadata_failNotRunning = (\<lambda>jobid m f.
       (m, fs_write f (Metadata_path m) Errors (''job '' @ jobid @ '' is not running''))),
     Node_checkHeartbeats = (\<lambda>n w. w),
     CheckMinimalSpace = (\<lambda>p w. None),
     JobManager_refreshResources = (\<lambda>l a w. w),
     JobManager_isLocal = (\<lambda>w. True),
     JobManager_hasQueueCheck = (\<lambda>w. Some True),
     JobManager_checkQueue = (\<lambda>ids r. (([], ''''), r)),
     CreateZip = (\<lambda>p fs w. None),
     Serialize = (\<lambda>n ns w. ''{}''),
     stateString = (\<lambda>s. if s = Failed then ''failed'' else if s = Complete then ''complete''
                          else ''running''),
     LookPath = (\<lambda>p. if p = ''notify.sh'' then Some ''/usr/bin/notify.sh'' else None),
     filepath_Rel = (\<lambda>base p. drop (Suc (length base)) p),
     filepath_Dir = (\<lambda>p. ''/'')\<rparr>"

subsection \<open>Lock\<close>

text \<open>
  \<open>Pipestance.Lock\<close>. \<open>timestamp\<close> is the text that \<open>WriteTime\<close> puts into the file.
  \<open>util.RegisterSignalHandler\<close> is not among the sources and has no effect on anything
  modelled here.
\<close>

definition Pipestance_Lock ::
  "string \<Rightarrow> Pipestance \<Rightarrow> 'rt World \<Rightarrow> error option \<times> Pipestance \<times> 'rt World" where
  "Pipestance_Lock timestamp ps w =
     (let ps1 = ps\<lparr>metadata := loadCache (fs w) (metadata ps)\<rparr> in
      if exists (metadata ps1) Lock
      then (Some (PipestanceLockedError (GetPsid ps1 w) (GetPath ps1 w)), ps1, w)
      else
        (let (m, w1) = Metadata_Write (metadata ps1) Lock timestamp w
         in (None, ps1\<lparr>metadata := m\<rparr>, w1)))"

definition is_locked_error :: "error option \<Rightarrow> bool" where
  "is_locked_error e = (case e of Some (PipestanceLockedError psid p) \<Rightarrow> True | _ \<Rightarrow> False)"

text \<open>A pipestance directory that already holds a \<open>Lock\<close> file.\<close>

definition lockedWorld :: "unit World" where
  "lockedWorld = (mkWorld [Running] [0])\<lparr>fs := fs_write (\<lambda>p n. None) ''/ps1'' Lock ''2014-01-01''\<rparr>"

text \<open>
  Two controllers on one directory whose executions of \<open>Lock\<close> overlap: both load their
  cache and test for the file before either writes it. The statements are those of
  \<open>Pipestance_Lock\<close>, in that order.
\<close>

definition Lock_overlapping ::
  "string \<Rightarrow> string \<Rightarrow> Pipestance \<Rightarrow> Pipestance \<Rightarrow> 'rt World
     \<Rightarrow> error option \<times> error option \<times> 'rt World" where
  "Lock_overlapping ta tb psa psb w =
     (let a1 = psa\<lparr>metadata := loadCache (fs w) (metadata psa)\<rparr>;
          b1 = psb\<lparr>metadata := loadCache (fs w) (metadata psb)\<rparr>;
          heldA = exists (metadata a1) Lock;
          heldB = exists (metadata b1) Lock;
          w1 = (if heldA then w else snd (Metadata_Write (metadata a1) Lock ta w));
          w2 = (if heldB then w1 else snd (Metadata_Write (metadata b1) Lock tb w1))
      in ((if heldA then Some (PipestanceLockedError (GetPsid a1 w) (GetPath a1 w)) else None),
          (if heldB then Some (PipestanceLockedError (GetPsid b1 w) (GetPath b1 w)) else None),
          w2))"

subsection \<open>Immortalize\<close>

definition ZipMetadata ::
  "'rt ops \<Rightarrow> string \<Rightarrow> Pipestance \<Rightarrow> 'rt World \<Rightarrow> error option \<times> Pipestance \<times> 'rt World" where
  "ZipMetadata ops zipDir ps w =
     (if \<not> Config_Zip (config w) then (None, ps, w)
      else
        (let (nodes, ps1) = allNodes (Node_allNodes ops) ps;
             metadatas = concat (map (\<lambda>n. Node_metadatas (heap w n)) nodes);
             removePaths = concat (map (\<lambda>r. glob (fs w) (metas w r)) metadatas)
         in case CreateZip ops zipDir removePaths w of
              Some err \<Rightarrow> (Some err, ps1, w\<lparr>io_log := io_log w @ [ZipFailed zipDir]\<rparr>)
            | None \<Rightarrow>
                (let w1 = w\<lparr>fs := fs_write (fs w) zipDir MetadataZip ''zip'',
                            io_log := io_log w @ [FileWritten zipDir MetadataZip]\<rparr>;
                     w2 = fold os_Remove removePaths w1;
                     w3 = fold removeMetadata nodes w2
                 in (None, ps1, w3))))"

text \<open>
  \<open>Immortalize\<close> writes \<open>Perf\<close> and \<open>FinalState\<close> through \<open>SerializePerf\<close> and
  \<open>SerializeState\<close>; both ask \<open>allNodes\<close> for the nodes, and what they make of them
  (\<open>Node.serializePerf\<close>, \<open>Node.serializeState\<close>) is the parameter \<open>Serialize\<close>.
\<close>

definition writeSerialized ::
  "'rt ops \<Rightarrow> MetadataFileName \<Rightarrow> Pipestance \<Rightarrow> 'rt World \<Rightarrow> Pipestance \<times> 'rt World" where
  "writeSerialized ops name ps w =
     (if \<not> exists (metadata ps) name then
        (let (nodes, ps1) = allNodes (Node_allNodes ops) ps;
             (m, w1) = Metadata_Write (metadata ps1) name (Serialize ops name nodes w) w
         in (ps1\<lparr>metadata := m\<rparr>, w1))
      else (ps, w))"

definition Immortalize ::
  "'rt ops \<Rightarrow> bool \<Rightarrow> Pipestance \<Rightarrow> 'rt World \<Rightarrow> error option \<times> Pipestance \<times> 'rt World" where
  "Immortalize ops force ps w =
     (if \<not> force \<and> readOnly ps
      then (Some (RuntimeError ''Pipestance is in read only mode.''), ps, w)
      else
        (let ps0 = ps\<lparr>metadata := loadCache (fs w) (metadata ps)\<rparr>;
             (ps1, w1) = writeSerialized ops Perf ps0 w;
             (ps2, w2) = writeSerialized ops FinalState ps1 w1
         in if \<not> exists (metadata ps2) MetadataZip then
              (let zipDir = Metadata_path (metadata ps2) in
               case ZipMetadata ops zipDir ps2 w2 of
                 (Some err, ps3, w3) \<Rightarrow> (Some err, ps3, os_Remove (zipDir, MetadataZip) w3)
               | (None, ps3, w3) \<Rightarrow> (None, ps3, w3))
            else (None, ps2, w2)))"

text \<open>How often a file was written according to a log.\<close>

definition writes_of :: "string \<Rightarrow> MetadataFileName \<Rightarrow> io_event list \<Rightarrow> nat" where
  "writes_of d n log = length (filter (\<lambda>e. e = FileWritten d n) log)"

text \<open>
  The metadata handles of the pipestance's nodes: none of them is a handle to the
  pipestance's own directory when \<open>nodes_apart\<close> holds.
\<close>

definition nodes_apart :: "'rt ops \<Rightarrow> Pipestance \<Rightarrow> 'rt World \<Rightarrow> bool" where
  "nodes_apart ops ps w =
     (\<forall>n\<in>set (fst (allNodes (Node_allNodes ops) ps)).
        \<forall>r\<in>set (Node_metadatas (heap w n)).
          Metadata_path (metas w r) \<noteq> Metadata_path (metadata ps))"

subsection \<open>The onfinish hook\<close>

text \<open>
  \<open>Pipestance.GetFatalError\<close>, reduced to the last component of its result, the error
  paths, which is all that \<open>OnFinishHook\<close> reads.
\<close>

fun GetFatalError :: "(node_ref \<Rightarrow> Node) \<Rightarrow> node_ref list \<Rightarrow> string list" where
  "GetFatalError h [] = []"
| "GetFatalError h (n # ns) =
     (if state (h n) = Failed then Node_err_paths (h n) else GetFatalError h ns)"

text \<open>
  \<open>OnFinishHook\<close> ends by running a command; the model returns the command it runs, by
  path and arguments, or \<open>None\<close> when it runs nothing.
\<close>

definition OnFinishHook ::
  "'rt ops \<Rightarrow> Pipestance \<Rightarrow> 'rt World \<Rightarrow> (string \<times> string list) option \<times> Pipestance" where
  "OnFinishHook ops ps w =
     (let exec_path = Config_OnFinishHandler (config w) in
      if exec_path \<noteq> [] then
        (let (st, ps1) = GetState (Node_allNodes ops) ps w;
             args = [GetPath ps w, stateString ops st, Node_name (getNode ps w)];
             (st', ps2) = GetState (Node_allNodes ops) ps1 w;
             args = (if st' = Failed then
                       (let err_paths = GetFatalError (heap w) (getFrontierNodes w) in
                        if length err_paths > 0
                        then args @ [filepath_Rel ops (filepath_Dir ops (GetPath ps w)) (hd err_paths)]
                        else args)
                     else args)
         in case LookPath ops exec_path of
              None \<Rightarrow> (None, ps2)
            | Some real_path \<Rightarrow> (Some (real_path, args), ps2))
      else (None, ps))"

text \<open>
  A pipestance \<open>ps1\<close> under \<open>/runs\<close>: node 0 is its top node, node 1 the pipeline
  \<open>PIPE\<close> and node 2 the stage, in the given state and alone on the frontier.
\<close>

definition hookWorld :: "MetadataState \<Rightarrow> unit World" where
  "hookWorld s = (mkWorld [] [2])\<lparr>heap := (\<lambda>i.
     if i = 0 then \<lparr>Node_name = ''ps1'', Node_fqname = ''ID.ps1'', Node_path = ''/runs/ps1'',
                    Node_parent = 0, state = Waiting, Node_err_paths = [], Node_metadatas = []\<rparr>
     else if i = 1 then \<lparr>Node_name = ''PIPE'', Node_fqname = ''ID.ps1.PIPE'',
                    Node_path = ''/runs/ps1/PIPE'', Node_parent = 0, state = s,
                    Node_err_paths = [], Node_metadatas = []\<rparr>
     else \<lparr>Node_name = ''STAGE'', Node_fqname = ''ID.ps1.PIPE.STAGE'',
            Node_path = ''/runs/ps1/PIPE/STAGE'', Node_parent = 1, state = s,
            Node_err_paths = [''/runs/ps1/PIPE/STAGE/fork0/_errors''], Node_metadatas = []\<rparr>)\<rparr>"

definition hookPipestance :: Pipestance where
  "hookPipestance = mkPipestance\<lparr>node := 1\<rparr>"

definition hookOps :: "unit ops" where
  "hookOps = failingOps\<lparr>Node_allNodes := (\<lambda>n. [1, 2]), filepath_Dir := (\<lambda>p. ''/runs'')\<rparr>"

definition unresolvedOps :: "unit ops" where
  "unresolvedOps = hookOps\<lparr>LookPath := (\<lambda>p. None)\<rparr>"

text \<open>
  A finished pipestance whose two nodes keep their metadata, one file each, in directories
  of their own below the pipestance directory.
\<close>

definition zipWorld :: "unit World" where
  "zipWorld = (mkWorld [Complete, Complete] [])\<lparr>
     heap := (\<lambda>i. (mkNode Complete)\<lparr>Node_metadatas := [i]\<rparr>),
     metas := (\<lambda>i. mkMetadata (if i = 0 then ''/ps1/PIPE'' else ''/ps1/PIPE/STAGE'')),
     fs := fs_write (fs_write (\<lambda>p n. None) ''/ps1/PIPE'' JobId ''17'')
             ''/ps1/PIPE/STAGE'' JobId ''18''\<rparr>"

section \<open>The queue probe\<close>

text \<open>
  Times are readings of the monotonic clock in nanoseconds. \<open>time.Since\<close> of the zero
  \<open>time.Time\<close>, which has no monotonic reading and lies two thousand years back, is the
  largest \<open>Duration\<close>.
\<close>

definition QUEUE_CHECK_LIMIT :: int where
  "QUEUE_CHECK_LIMIT = 5 * (60 * 1000000000)"

definition time_Since :: "int \<Rightarrow> int option \<Rightarrow> int" where
  "time_Since now t = (case t of None \<Rightarrow> 9223372036854775807 | Some t0 \<Rightarrow> now - t0)"

text \<open>
  The section of \<open>queryQueue\<close> that holds \<open>queueCheckLock\<close> first: the test and, when it
  lets the caller through, the setting of \<open>queueCheckActive\<close>.
\<close>

definition queueCheck_begin :: "int \<Rightarrow> Pipestance \<Rightarrow> bool \<times> Pipestance" where
  "queueCheck_begin now ps =
     (if queueCheckActive ps \<or> time_Since now (lastQueueCheck ps) < QUEUE_CHECK_LIMIT
      then (False, ps)
      else (True, ps\<lparr>queueCheckActive := True\<rparr>))"

text \<open>
  \<open>needsQuery\<close> maps job ids to metadata handles; the list \<open>metas_read\<close> below is the
  source's set \<open>metas\<close> of the handles already read.
\<close>

type_synonym needsQuery = "(string \<times> meta_ref option) list"

text \<open>
  Modelled from the spec: \<open>Metadata.readRaw\<close> is not among the sources. It is the raw
  string read of a file, empty when there is none.
\<close>

definition readRaw :: "filesys \<Rightarrow> Metadata \<Rightarrow> MetadataFileName \<Rightarrow> string" where
  "readRaw f m n = (case f (Metadata_path m) n of None \<Rightarrow> [] | Some text \<Rightarrow> text)"

definition needsQuery_set :: "string \<Rightarrow> meta_ref \<Rightarrow> needsQuery \<Rightarrow> needsQuery" where
  "needsQuery_set jobid m nq =
     (if jobid \<in> fst ` set nq then map (\<lambda>(k, v). if k = jobid then (k, Some m) else (k, v)) nq
      else nq @ [(jobid, Some m)])"

definition needsQuery_delete :: "string \<Rightarrow> needsQuery \<Rightarrow> needsQuery" where
  "needsQuery_delete jobid nq = filter (\<lambda>(k, v). k \<noteq> jobid) nq"

fun collectQueries ::
  "'rt ops \<Rightarrow> 'rt World \<Rightarrow> meta_ref list \<Rightarrow> meta_ref list \<times> needsQuery
     \<Rightarrow> meta_ref list \<times> needsQuery" where
  "collectQueries ops w [] acc = acc"
| "collectQueries ops w (m # ms) (metas_read, nq) =
     collectQueries ops w ms
       (if m \<notin> set metas_read then
          (case Metadata_getState ops (metas w m) (fs w) of
             Some st \<Rightarrow>
               if (st = Queued \<or> st = Running) \<and> exists (metas w m) JobId then
                 (let jobid = readRaw (fs w) (metas w m) JobId
                  in (m # metas_read, if jobid \<noteq> [] then needsQuery_set jobid m nq else nq))
               else (metas_read, nq)
           | None \<Rightarrow> (metas_read, nq))
        else (metas_read, nq))"

text \<open>
  \<open>queryQueue\<close> up to the \<open>go\<close> statement, in two parts: up to the end of the section
  that holds \<open>queueCheckLock\<close> first, with the result whether the caller goes on, and from
  there to the \<open>go\<close> statement, with the result whether the probe task is started, and
  with which job ids and handles.
\<close>

definition queryQueue_enter :: "'rt ops \<Rightarrow> int \<Rightarrow> Pipestance \<Rightarrow> 'rt World \<Rightarrow> bool \<times> Pipestance" where
  "queryQueue_enter ops now ps w =
     (if JobManager_hasQueueCheck ops w \<noteq> Some True then (False, ps)
      else queueCheck_begin now ps)"

definition queryQueue_prepare ::
  "'rt ops \<Rightarrow> Pipestance \<Rightarrow> 'rt World \<Rightarrow> (string list \<times> needsQuery) option \<times> Pipestance" where
  "queryQueue_prepare ops ps w =
     (let handles = concat (map (\<lambda>n. Node_metadatas (heap w n)) (getFrontierNodes w));
          nq = snd (collectQueries ops w handles ([], []))
      in if length nq = 0 then (None, ps\<lparr>queueCheckActive := False\<rparr>)
         else (Some (map fst nq, nq), ps))"

definition queryQueue ::
  "'rt ops \<Rightarrow> int \<Rightarrow> Pipestance \<Rightarrow> 'rt World
     \<Rightarrow> (string list \<times> needsQuery) option \<times> Pipestance" where
  "queryQueue ops now ps w =
     (case queryQueue_enter ops now ps w of
        (False, ps1) \<Rightarrow> (None, ps1)
      | (True, ps1) \<Rightarrow> queryQueue_prepare ops ps1 w)"

text \<open>
  The task that \<open>queryQueue\<close> starts with \<open>go\<close>. \<open>finished\<close> is the clock reading when it
  takes the lock at its end.
\<close>

definition failNotRunning_at :: "'rt ops \<Rightarrow> string \<times> meta_ref option \<Rightarrow> 'rt World \<Rightarrow> 'rt World" where
  "failNotRunning_at ops entry w =
     (case snd entry of
        None \<Rightarrow> w
      | Some r \<Rightarrow>
          (let (m, f) = Metadata_failNotRunning ops (fst entry) (metas w r) (fs w)
           in w\<lparr>metas := (metas w)(r := m), fs := f\<rparr>))"

definition queueProbe ::
  "'rt ops \<Rightarrow> int \<Rightarrow> string list \<Rightarrow> needsQuery \<Rightarrow> Pipestance \<Rightarrow> 'rt World
     \<Rightarrow> Pipestance \<times> 'rt World" where
  "queueProbe ops finished jobsIn needsQuery ps w =
     (let ((queued, raw), r) = JobManager_checkQueue ops jobsIn (rt w);
          w1 = w\<lparr>rt := r\<rparr>;
          nq = fold needsQuery_delete queued needsQuery;
          w2 = (if \<not> readOnly ps then fold (failNotRunning_at ops) nq w1 else w1)
      in (ps\<lparr>queueCheckActive := False, lastQueueCheck := Some finished\<rparr>, w2))"

definition CheckHeartbeats ::
  "'rt ops \<Rightarrow> int \<Rightarrow> Pipestance \<Rightarrow> 'rt World
     \<Rightarrow> (string list \<times> needsQuery) option \<times> Pipestance \<times> 'rt World" where
  "CheckHeartbeats ops now ps w =
     (if readOnly ps then (None, ps, w)
      else
        (let (task, ps1) = queryQueue ops now ps w
         in (task, ps1, fold (Node_checkHeartbeats ops) (getFrontierNodes w) w)))"

subsection \<open>Calls and probes over time\<close>

text \<open>
  Callers of \<open>CheckHeartbeats\<close> and the probe task run side by side. A state of the whole
  holds the clock, the pipestance, the queue checks under way, and the clock readings at
  which \<open>checkQueue\<close> was called, the latest first. A queue check under way is a caller
  between the locked section and the \<open>go\<close> statement of \<open>queryQueue\<close>, or a probe task
  that has not yet called \<open>checkQueue\<close>, or one that has. An event is the passing of some
  time (the clock never runs backwards); a caller running \<open>CheckHeartbeats\<close> up to the
  end of the locked section of \<open>queryQueue\<close>; a caller going on from there to the \<open>go\<close>
  statement; a task calling \<open>checkQueue\<close>; or a task running from there to its end. What a
  caller or a task finds in the world is part of the event.
\<close>

datatype probe_phase = Preparing | Launched | Checking

record probe_task =
  phase :: probe_phase
  task_jobsIn :: "string list"
  task_needsQuery :: needsQuery

record sched =
  clock :: int
  pstance :: Pipestance
  probes :: "probe_task list"
  checkQueue_calls :: "int list"

datatype 'rt event =
  Tick int
  | Call "'rt World"
  | Prepare nat "'rt World"
  | Invoke nat
  | Finish nat "'rt World"

fun step :: "'rt ops \<Rightarrow> sched \<Rightarrow> 'rt event \<Rightarrow> sched" where
  "step ops s (Tick d) = s\<lparr>clock := clock s + max 0 d\<rparr>"
| "step ops s (Call w) =
     (if readOnly (pstance s) then s
      else
        (case queryQueue_enter ops (clock s) (pstance s) w of
           (False, ps) \<Rightarrow> s\<lparr>pstance := ps\<rparr>
         | (True, ps) \<Rightarrow>
             s\<lparr>pstance := ps,
               probes := probes s @ [\<lparr>phase = Preparing, task_jobsIn = [], task_needsQuery = []\<rparr>]\<rparr>))"
| "step ops s (Prepare i w) =
     (if i < length (probes s) \<and> phase (probes s ! i) = Preparing
      then
        (case queryQueue_prepare ops (pstance s) w of
           (None, ps) \<Rightarrow> s\<lparr>pstance := ps, probes := take i (probes s) @ drop (Suc i) (probes s)\<rparr>
         | (Some (jobsIn, nq), ps) \<Rightarrow>
             s\<lparr>pstance := ps,
               probes := (probes s)[i := \<lparr>phase = Launched, task_jobsIn = jobsIn,
                                             task_needsQuery = nq\<rparr>]\<rparr>)
      else s)"
| "step ops s (Invoke i) =
     (if i < length (probes s) \<and> phase (probes s ! i) = Launched
      then s\<lparr>probes := (probes s)[i := (probes s ! i)\<lparr>phase := Checking\<rparr>],
             checkQueue_calls := clock s # checkQueue_calls s\<rparr>
      else s)"
| "step ops s (Finish i w) =
     (if i < length (probes s) \<and> phase (probes s ! i) = Checking
      then s\<lparr>pstance := fst (queueProbe ops (clock s) (task_jobsIn (probes s ! i))
                                (task_needsQuery (probes s ! i)) (pstance s) w),
             probes := take i (probes s) @ drop (Suc i) (probes s)\<rparr>
      else s)"

definition run_events :: "'rt ops \<Rightarrow> sched \<Rightarrow> 'rt event list \<Rightarrow> sched" where
  "run_events ops s evs = foldl (step ops) s evs"

text \<open>A pipestance as \<open>NewPipestance\<close> leaves it, at some reading of the clock.\<close>

definition initial :: "int \<Rightarrow> Pipestance \<Rightarrow> sched" where
  "initial t0 ps =
     \<lparr>clock = t0, pstance = ps\<lparr>queueCheckActive := False, lastQueueCheck := None\<rparr>,
      probes = [], checkQueue_calls = []\<rparr>"

text \<open>Readings, latest first, each at least the limit after the one before it.\<close>

fun spaced :: "int list \<Rightarrow> bool" where
  "spaced [] = True"
| "spaced [c] = True"
| "spaced (c # c' # cs) = (c' + QUEUE_CHECK_LIMIT \<le> c \<and> spaced (c' # cs))"

definition sched_inv :: "sched \<Rightarrow> bool" where
  "sched_inv s =
     (length (probes s) \<le> 1
      \<and> (queueCheckActive (pstance s) \<longleftrightarrow> probes s \<noteq> [])
      \<and> spaced (checkQueue_calls s)
      \<and> (\<forall>c\<in>set (checkQueue_calls s). c \<le> clock s)
      \<and> ((\<forall>p\<in>set (probes s). phase p \<noteq> Checking) \<longrightarrow> checkQueue_calls s = []
            \<or> (\<exists>l. lastQueueCheck (pstance s) = Some l \<and> hd (checkQueue_calls s) \<le> l
                    \<and> l \<le> clock s))
      \<and> (\<forall>p\<in>set (probes s). phase p \<noteq> Checking \<longrightarrow>
            (\<forall>c\<in>set (checkQueue_calls s). c + QUEUE_CHECK_LIMIT \<le> clock s)))"

text \<open>An example world: one queued job, which the job manager does not know.\<close>

definition queueWorld :: "unit World" where
  "queueWorld = (mkWorld [Running] [0])\<lparr>
     heap := (\<lambda>i. (mkNode Running)\<lparr>Node_metadatas := [0]\<rparr>),
     metas := (\<lambda>i. \<lparr>Metadata_path = ''/ps1/PIPE/STAGE/fork0'',
                     Metadata_cache = (\<lambda>n. n = JobId)\<rparr>),
     fs := fs_write (\<lambda>p n. None) ''/ps1/PIPE/STAGE/fork0'' JobId ''4711''\<rparr>"

definition lockedPipestance :: Pipestance where
  "lockedPipestance = mkPipestance\<lparr>metadata := \<lparr>Metadata_path = ''/ps1'',
     Metadata_cache = (\<lambda>n. n = Lock)\<rparr>\<rparr>"

section \<open>The include resolver\<close>

text \<open>
  A \<open>*SourceFile\<close> is created once for each absolute path, by \<open>ParseSourceBytes\<close> for
  the top file and by \<open>getIncludes\<close> for an included one, and is entered into
  \<open>processedIncludes\<close> under that path at once. A pointer to a source file is therefore
  its \<open>FullPath\<close>, and \<open>processedIncludes\<close> is the heap of source files. The \<open>File\<close>
  of a source location is such a pointer.
\<close>

type_synonym path = string

record SourceLoc =
  Line :: nat
  File :: path

record Include =
  Include_Value :: string
  Include_Loc :: SourceLoc

record SourceFile =
  FileName :: string
  IncludedFrom :: "SourceLoc list"

type_synonym processedIncludes = "path \<Rightarrow> SourceFile option"

text \<open>
  Modelled from the spec: \<open>ErrorList\<close> and \<open>ErrorList.If\<close> are not among the sources.
  The spec has errors collected in a list, with an "if-any" combinator that returns null
  when the list is empty. An error list is represented by the list of the single errors in
  it, \<open>nil\<close> by the empty list, and appending the error of a nested parse appends its
  single errors. There is one constructor for each error value the resolver builds; the
  last stands for whatever error \<open>yaccParse\<close> returns.
\<close>

datatype include_error =
  FileNotFoundError string SourceLoc
  | IncludedMultipleTimes string SourceLoc
  | IncludesItself path SourceLoc
  | IncludeCycle path SourceLoc
  | ReadFileError path SourceLoc
  | ParseError path

text \<open>
  What lies outside the sources: the search for an include on the include paths, the
  \<open>filepath\<close> functions, reading a file, and the parser, of which only the include
  directives matter here, each with its text and line; \<open>yaccParse\<close> is given the source
  file and attributes the directives to it.
\<close>

record 'b inc_env =
  util_SearchPaths :: "string \<Rightarrow> string list \<Rightarrow> string option"
  path_Abs :: "string \<Rightarrow> path"
  path_Dir :: "path \<Rightarrow> string"
  path_Base :: "string \<Rightarrow> string"
  ioutil_ReadFile :: "path \<Rightarrow> 'b option"
  yaccParse :: "'b \<Rightarrow> (string \<times> nat) list option"

definition includes_of :: "path \<Rightarrow> (string \<times> nat) list \<Rightarrow> Include list" where
  "includes_of srcFile ds =
     map (\<lambda>(v, l). \<lparr>Include_Value = v, Include_Loc = \<lparr>Line = l, File = srcFile\<rparr>\<rparr>) ds"

text \<open>
  \<open>SourceFile.checkIncludes\<close> climbs from a file to the files that include it. Nothing
  bounds the climb when those form a cycle, so the model counts it down: the result is
  \<open>None\<close> when the count runs out, and also where the source would dereference \<open>nil\<close>.
\<close>

fun checkIncludes ::
    "nat \<Rightarrow> processedIncludes \<Rightarrow> path \<Rightarrow> path \<Rightarrow> SourceLoc \<Rightarrow> include_error list option"
  and checkParents ::
    "nat \<Rightarrow> processedIncludes \<Rightarrow> SourceLoc list \<Rightarrow> path \<Rightarrow> SourceLoc \<Rightarrow> include_error list option"
  where
  "checkIncludes 0 processed src fullPath inc = None"
| "checkIncludes (Suc n) processed src fullPath inc =
     (case processed src of
        None \<Rightarrow> None
      | Some f \<Rightarrow>
          if fullPath = src then Some [IncludeCycle src inc]
          else checkParents n processed (IncludedFrom f) fullPath inc)"
| "checkParents n processed [] fullPath inc = Some []"
| "checkParents n processed (parent # parents) fullPath inc =
     (case checkIncludes n processed (File parent) fullPath inc of
        None \<Rightarrow> None
      | Some errs \<Rightarrow>
          (case checkParents n processed parents fullPath inc of
             None \<Rightarrow> None
           | Some errs' \<Rightarrow> Some (errs @ errs')))"

text \<open>
  \<open>parseSource\<close> and \<open>getIncludes\<close>, without the ASTs they build and merge. The loop of
  \<open>getIncludes\<close> carries \<open>seen\<close> and \<open>processedIncludes\<close> along; \<open>includeFile\<close> is what
  the loop does with an include once it is found, after the test of \<open>seen\<close>. Parsing
  recurses into included files and is counted down as well; \<open>incPaths[1:]\<close> panics on an
  empty list, which also gives \<open>None\<close>.
\<close>

function parseSource ::
    "nat \<Rightarrow> 'b inc_env \<Rightarrow> 'b \<Rightarrow> path \<Rightarrow> string list \<Rightarrow> processedIncludes
       \<Rightarrow> (include_error list \<times> processedIncludes) option"
  and getIncludes ::
    "nat \<Rightarrow> 'b inc_env \<Rightarrow> path \<Rightarrow> Include list \<Rightarrow> string list \<Rightarrow> path list
       \<Rightarrow> processedIncludes \<Rightarrow> (include_error list \<times> processedIncludes) option"
  and includeFile ::
    "nat \<Rightarrow> 'b inc_env \<Rightarrow> path \<Rightarrow> Include \<Rightarrow> path \<Rightarrow> string list
       \<Rightarrow> processedIncludes \<Rightarrow> (include_error list \<times> processedIncludes) option"
  where
  "parseSource 0 env src srcFile incPaths processed = None"
| "parseSource (Suc n) env src srcFile incPaths processed =
     (case yaccParse env src of
        None \<Rightarrow> Some ([ParseError srcFile], processed)
      | Some ds \<Rightarrow>
          getIncludes n env srcFile (includes_of srcFile ds)
            (path_Dir env srcFile # incPaths) [] processed)"
| "getIncludes n env srcFile [] incPaths seen processed = Some ([], processed)"
| "getIncludes n env srcFile (inc # includes) incPaths seen processed =
     (case util_SearchPaths env (Include_Value inc) incPaths of
        None \<Rightarrow>
          (case getIncludes n env srcFile includes incPaths seen processed of
             None \<Rightarrow> None
           | Some (errs, processed') \<Rightarrow>
               Some (FileNotFoundError (Include_Value inc) (Include_Loc inc) # errs, processed'))
      | Some ifpath \<Rightarrow>
          (case includeFile n env srcFile inc (path_Abs env ifpath) incPaths processed of
             None \<Rightarrow> None
           | Some (errs1, processed1) \<Rightarrow>
               (case getIncludes n env srcFile includes incPaths
                       (path_Abs env ifpath # seen) processed1 of
                  None \<Rightarrow> None
                | Some (errs2, processed2) \<Rightarrow>
                    Some ((if path_Abs env ifpath \<in> set seen
                           then [IncludedMultipleTimes (Include_Value inc) (Include_Loc inc)]
                           else []) @ errs1 @ errs2, processed2))))"
| "includeFile n env srcFile inc absPath incPaths processed =
     (if absPath = srcFile then Some ([IncludesItself srcFile (Include_Loc inc)], processed)
      else
        (case processed absPath of
           Some iSrcFile \<Rightarrow>
             (let processed1 = processed(absPath \<mapsto>
                            iSrcFile\<lparr>IncludedFrom := IncludedFrom iSrcFile @ [Include_Loc inc]\<rparr>)
              in case checkIncludes n processed1 srcFile absPath (Include_Loc inc) of
                   None \<Rightarrow> None
                 | Some errs \<Rightarrow> Some (errs, processed1))
         | None \<Rightarrow>
             (let processed1 = processed(absPath \<mapsto>
                            \<lparr>FileName = Include_Value inc, IncludedFrom = [Include_Loc inc]\<rparr>)
              in case ioutil_ReadFile env absPath of
                   None \<Rightarrow> Some ([ReadFileError absPath (Include_Loc inc)], processed1)
                 | Some b \<Rightarrow>
                     (case incPaths of
                        [] \<Rightarrow> None
                      | dir # rest \<Rightarrow> parseSource n env b absPath rest processed1))))"
  by pat_completeness auto
termination
  by (relation "inv_image (less_than <*lex*> less_than)
        (\<lambda>x. case x of
           Inl (n, env, src, srcFile, incPaths, processed) \<Rightarrow> (n, 0)
         | Inr (Inl (n, env, srcFile, includes, incPaths, seen, processed)) \<Rightarrow>
             (n, 2 + length includes)
         | Inr (Inr (n, env, srcFile, inc, absPath, incPaths, processed)) \<Rightarrow> (n, 1))")
    auto

text \<open>
  The part of \<open>ParseSourceBytes\<close> before the compiler runs: the top file is entered into
  \<open>processedIncludes\<close> and parsed.
\<close>

definition ParseSourceBytes ::
  "nat \<Rightarrow> 'b inc_env \<Rightarrow> 'b \<Rightarrow> string \<Rightarrow> string list
     \<Rightarrow> (include_error list \<times> processedIncludes) option" where
  "ParseSourceBytes fuel env src srcPath incPaths =
     (let absPath = path_Abs env srcPath
      in parseSource fuel env src absPath incPaths
           ((\<lambda>p. None)(absPath \<mapsto> \<lparr>FileName = path_Base env srcPath, IncludedFrom = []\<rparr>)))"








text \<open>
  An include graph without cycles: the files can be ranked by natural numbers so that
  every include directive that resolves to a file other than the including one leads to a
  file of lower rank, on whatever search paths it is resolved. \<open>descends\<close> says so of
  the directives of one file, \<open>acyclic_includes\<close> of every file that can be read and
  parsed. (Among finitely many files there is such a ranking exactly when no chain of
  includes leads from a file back to it: the rank of a file is the length of the longest
  chain of includes below it. A directive by which a file includes itself is set aside,
  since \<open>getIncludes\<close> goes no further into it.)
\<close>

definition descends :: "'b inc_env \<Rightarrow> (path \<Rightarrow> nat) \<Rightarrow> path \<Rightarrow> (string \<times> nat) list \<Rightarrow> bool" where
  "descends env rank srcFile ds =
     (\<forall>d\<in>set ds. \<forall>incPaths ifpath.
        util_SearchPaths env (fst d) incPaths = Some ifpath \<longrightarrow>
        path_Abs env ifpath \<noteq> srcFile \<longrightarrow>
        rank (path_Abs env ifpath) < rank srcFile)"

definition acyclic_includes :: "'b inc_env \<Rightarrow> (path \<Rightarrow> nat) \<Rightarrow> bool" where
  "acyclic_includes env rank =
     (\<forall>p b ds. ioutil_ReadFile env p = Some b \<longrightarrow> yaccParse env b = Some ds \<longrightarrow>
        descends env rank p ds)"

text \<open>
  \<open>processedIncludes\<close> as parsing such a graph keeps it: the locations in the
  \<open>IncludedFrom\<close> of a file lie in files that are in \<open>processedIncludes\<close> themselves
  and of higher rank than the file, none above \<open>bound\<close>, the rank of the top file. This
  holds of the map that \<open>ParseSourceBytes\<close> starts from, in which \<open>IncludedFrom\<close> is
  empty.
\<close>

definition ranked :: "(path \<Rightarrow> nat) \<Rightarrow> nat \<Rightarrow> processedIncludes \<Rightarrow> bool" where
  "ranked rank bound processed =
     (\<forall>p f. processed p = Some f \<longrightarrow>
        (\<forall>loc\<in>set (IncludedFrom f).
           processed (File loc) \<noteq> None \<and> rank p < rank (File loc) \<and> rank (File loc) \<le> bound))"

text \<open>
  Example files under \<open>/m\<close>; the text of a file is the list of the names it includes,
  one directive to a line. In \<open>diamond\<close>, \<open>a.mro\<close> includes \<open>b.mro\<close> and \<open>c.mro\<close>, and
  each of these includes \<open>d.mro\<close>. In \<open>twice\<close>, \<open>a.mro\<close> includes \<open>d.mro\<close>, \<open>b.mro\<close>
  and \<open>d.mro\<close> again.
\<close>

definition mkEnv :: "(string \<times> string list) list \<Rightarrow> (string list) inc_env" where
  "mkEnv files =
     \<lparr>util_SearchPaths = (\<lambda>name paths.
          if name \<in> fst ` set files \<and> ''/m'' \<in> set paths then Some (''/m/'' @ name) else None),
      path_Abs = (\<lambda>p. p),
      path_Dir = (\<lambda>p. ''/m''),
      path_Base = drop 3,
      ioutil_ReadFile = (\<lambda>p. map_of files (drop 3 p)),
      yaccParse = (\<lambda>names. Some (zip names [1 ..< Suc (length names)]))\<rparr>"

definition diamond :: "(string \<times> string list) list" where
  "diamond = [(''a.mro'', [''b.mro'', ''c.mro'']), (''b.mro'', [''d.mro'']),
              (''c.mro'', [''d.mro'']), (''d.mro'', [])]"


text \<open>
  In \<open>cyclic\<close>, \<open>a.mro\<close> includes \<open>c.mro\<close> and \<open>b.mro\<close>, and \<open>b.mro\<close> includes
  \<open>a.mro\<close> and \<open>c.mro\<close>.
\<close>

definition cyclic :: "(string \<times> string list) list" where
  "cyclic = [(''a.mro'', [''c.mro'', ''b.mro'']), (''b.mro'', [''a.mro'', ''c.mro'']),
             (''c.mro'', [])]"

text \<open>
  A ranking of example files, given by the ranks of those that include others; the other
  files have rank 0.
\<close>

definition mkRank :: "(string \<times> nat) list \<Rightarrow> path \<Rightarrow> nat" where
  "mkRank ranks p = (case map_of ranks (drop 3 p) of None \<Rightarrow> 0 | Some r \<Rightarrow> r)"

section \<open>Properties\<close>

lemma anyInState_iff: "anyInState h s ns \<longleftrightarrow> (\<exists>n\<in>set ns. state (h n) = s)"
  by (induction ns) auto

lemma everyDisabled_iff: "everyDisabled h ns \<longleftrightarrow> (\<forall>n\<in>set ns. state (h n) = DisabledState)"
  by (induction ns) auto

lemma everyCompleteOrDisabled_iff:
  "everyCompleteOrDisabled h ns \<longleftrightarrow>
     (\<forall>n\<in>set ns. state (h n) = Complete \<or> state (h n) = DisabledState)"
  by (induction ns) auto

lemma allNodes_again: "fst (allNodes subtree (snd (allNodes subtree ps))) = fst (allNodes subtree ps)"
  by (simp add: allNodes_def Let_def split: option.splits)

subsection \<open>C1: state aggregation\<close>

text \<open>
  C1. For every pipestance, \<open>GetState\<close> returns \<open>Failed\<close> if some frontier node is
  \<open>Failed\<close>; otherwise \<open>Running\<close> if some frontier node is \<open>Running\<close>; otherwise
  \<open>DisabledState\<close> if every node of the pipestance is \<open>DisabledState\<close>; otherwise
  \<open>Complete\<close> if every node is \<open>Complete\<close> or \<open>DisabledState\<close>; otherwise
  \<open>ForkWaiting\<close>.
\<close>

theorem GetState_aggregation:
  "fst (GetState subtree ps w) =
     (if \<exists>n\<in>set (getFrontierNodes w). state (heap w n) = Failed then Failed
      else if \<exists>n\<in>set (getFrontierNodes w). state (heap w n) = Running then Running
      else if \<forall>n\<in>set (fst (allNodes subtree ps)). state (heap w n) = DisabledState
        then DisabledState
      else if \<forall>n\<in>set (fst (allNodes subtree ps)).
                state (heap w n) = Complete \<or> state (heap w n) = DisabledState
        then Complete
      else ForkWaiting)"
proof -
  let ?all = "fst (allNodes subtree ps)"
  have again: "fst (allNodes subtree (snd (allNodes subtree ps))) = ?all"
    by (rule allNodes_again)
  show ?thesis
    unfolding GetState_def Let_def
    by (auto simp add: anyInState_iff everyDisabled_iff everyCompleteOrDisabled_iff
        again split_beta)
qed

text \<open>
  One pipestance for each of the five outcomes. In the first the failed node 1 is on the
  frontier next to a running one; in the last a frontier node is merely waiting.
\<close>

theorem GetState_aggregation_witness:
  "fst (GetState (mkSubtree 3) mkPipestance (mkWorld [Complete, Failed, Running] [2, 1])) = Failed
   \<and> fst (GetState (mkSubtree 3) mkPipestance (mkWorld [Complete, Failed, Running] [2])) = Running
   \<and> fst (GetState (mkSubtree 2) mkPipestance (mkWorld [DisabledState, DisabledState] [])) = DisabledState
   \<and> fst (GetState (mkSubtree 2) mkPipestance (mkWorld [Complete, DisabledState] [1])) = Complete
   \<and> fst (GetState (mkSubtree 2) mkPipestance (mkWorld [Complete, Waiting] [1])) = ForkWaiting"
  using GetState_aggregation [of "mkSubtree 3" mkPipestance "mkWorld [Complete, Failed, Running] [2, 1]"]
    GetState_aggregation [of "mkSubtree 3" mkPipestance "mkWorld [Complete, Failed, Running] [2]"]
    GetState_aggregation [of "mkSubtree 2" mkPipestance "mkWorld [DisabledState, DisabledState] []"]
    GetState_aggregation [of "mkSubtree 2" mkPipestance "mkWorld [Complete, DisabledState] [1]"]
    GetState_aggregation [of "mkSubtree 2" mkPipestance "mkWorld [Complete, Waiting] [1]"]
  by (simp add: getFrontierNodes_def GetNodes_def mkWorld_def mkNode_def mkSubtree_def Let_def
      allNodes_def mkPipestance_def upt_conv_Cons)

subsection \<open>C2: the six passes\<close>

lemma compile_run_in_order: "compile run global = run_in_order run six_passes (global, [])"
  by (simp add: compile_def six_passes_def split: prod.splits option.splits)

lemma run_in_order_ok:
  "run_in_order run ps (a, tr) = (None, a', tr') \<longleftrightarrow>
     (\<forall>i<length ps. fst (run (ps ! i) (after run (take i ps) a)) = None)
     \<and> a' = after run ps a \<and> tr' = tr @ ps"
proof (induction ps arbitrary: a tr)
  case Nil
  then show ?case by auto
next
  case (Cons p ps)
  show ?case
  proof (cases "fst (run p a)")
    case None
    then have step: "invoke run p (a, tr) = (None, snd (run p a), tr @ [p])"
      by (cases "run p a") (simp add: invoke_def)
    show ?thesis
      using None by (simp add: step Cons.IH All_less_Suc2 conj_ac) 
  next
    case (Some e)
    then have step: "invoke run p (a, tr) = (Some e, snd (run p a), tr @ [p])"
      by (cases "run p a") (simp add: invoke_def)
    have "\<not> (\<forall>i<length (p # ps). fst (run ((p # ps) ! i) (after run (take i (p # ps)) a)) = None)"
      using Some by (auto intro: exI [of _ 0])
    then show ?thesis by (simp add: step)
  qed
qed

lemma run_in_order_err:
  "run_in_order run ps (a, tr) = (Some e, a', tr') \<longleftrightarrow>
     (\<exists>k<length ps. fst (run (ps ! k) (after run (take k ps) a)) = Some e
        \<and> (\<forall>i<k. fst (run (ps ! i) (after run (take i ps) a)) = None)
        \<and> a' = after run (take (Suc k) ps) a \<and> tr' = tr @ take (Suc k) ps)"
proof (induction ps arbitrary: a tr)
  case Nil
  then show ?case by auto
next
  case (Cons p ps)
  show ?case
  proof (cases "fst (run p a)")
    case None
    then have step: "invoke run p (a, tr) = (None, snd (run p a), tr @ [p])"
      by (cases "run p a") (simp add: invoke_def)
    have "(\<exists>k<length (p # ps). fst (run ((p # ps) ! k) (after run (take k (p # ps)) a)) = Some e
        \<and> (\<forall>i<k. fst (run ((p # ps) ! i) (after run (take i (p # ps)) a)) = None)
        \<and> a' = after run (take (Suc k) (p # ps)) a \<and> tr' = tr @ take (Suc k) (p # ps))
      \<longleftrightarrow> (\<exists>k<length ps. fst (run (ps ! k) (after run (take k ps) (snd (run p a)))) = Some e
        \<and> (\<forall>i<k. fst (run (ps ! i) (after run (take i ps) (snd (run p a)))) = None)
        \<and> a' = after run (take (Suc k) ps) (snd (run p a)) \<and> tr' = (tr @ [p]) @ take (Suc k) ps)"
      (is "?L \<longleftrightarrow> ?R")
    proof
      assume ?L
      then obtain k where k: "k < length (p # ps)"
        "fst (run ((p # ps) ! k) (after run (take k (p # ps)) a)) = Some e"
        "\<forall>i<k. fst (run ((p # ps) ! i) (after run (take i (p # ps)) a)) = None"
        "a' = after run (take (Suc k) (p # ps)) a" "tr' = tr @ take (Suc k) (p # ps)"
        by blast
      from k(2) None obtain j where j: "k = Suc j" by (cases k) auto
      have "\<forall>i<j. fst (run (ps ! i) (after run (take i ps) (snd (run p a)))) = None"
      proof (intro allI impI)
        fix i assume "i < j"
        then have "Suc i < k" using j by simp
        with k(3) have "fst (run ((p # ps) ! Suc i) (after run (take (Suc i) (p # ps)) a)) = None"
          by blast
        then show "fst (run (ps ! i) (after run (take i ps) (snd (run p a)))) = None" by simp
      qed
      with k j show ?R by (intro exI [of _ j]) simp
    next
      assume ?R
      then obtain j where j: "j < length ps"
        "fst (run (ps ! j) (after run (take j ps) (snd (run p a)))) = Some e"
        "\<forall>i<j. fst (run (ps ! i) (after run (take i ps) (snd (run p a)))) = None"
        "a' = after run (take (Suc j) ps) (snd (run p a))" "tr' = (tr @ [p]) @ take (Suc j) ps"
        by blast
      have "\<forall>i<Suc j. fst (run ((p # ps) ! i) (after run (take i (p # ps)) a)) = None"
      proof (intro allI impI)
        fix i assume i: "i < Suc j"
        show "fst (run ((p # ps) ! i) (after run (take i (p # ps)) a)) = None"
        proof (cases i)
          case 0 then show ?thesis using None by simp
        next
          case (Suc i') then show ?thesis using i j(3) by simp
        qed
      qed
      with j show ?L by (intro exI [of _ "Suc j"]) simp
    qed
    then show ?thesis by (simp only: run_in_order.simps step prod.case option.case Cons.IH)
  next
    case (Some e')
    then have step: "invoke run p (a, tr) = (Some e', snd (run p a), tr @ [p])"
      by (cases "run p a") (simp add: invoke_def)
    show ?thesis
    proof
      assume "run_in_order run (p # ps) (a, tr) = (Some e, a', tr')"
      then have "e' = e" "a' = snd (run p a)" "tr' = tr @ [p]" by (simp_all add: step)
      then show "\<exists>k<length (p # ps). fst (run ((p # ps) ! k) (after run (take k (p # ps)) a)) = Some e
        \<and> (\<forall>i<k. fst (run ((p # ps) ! i) (after run (take i (p # ps)) a)) = None)
        \<and> a' = after run (take (Suc k) (p # ps)) a \<and> tr' = tr @ take (Suc k) (p # ps)"
        using Some by (intro exI [of _ 0]) simp
    next
      assume "\<exists>k<length (p # ps). fst (run ((p # ps) ! k) (after run (take k (p # ps)) a)) = Some e
        \<and> (\<forall>i<k. fst (run ((p # ps) ! i) (after run (take i (p # ps)) a)) = None)
        \<and> a' = after run (take (Suc k) (p # ps)) a \<and> tr' = tr @ take (Suc k) (p # ps)"
      then obtain k where k: "k < length (p # ps)"
        "fst (run ((p # ps) ! k) (after run (take k (p # ps)) a)) = Some e"
        "\<forall>i<k. fst (run ((p # ps) ! i) (after run (take i (p # ps)) a)) = None"
        "a' = after run (take (Suc k) (p # ps)) a" "tr' = tr @ take (Suc k) (p # ps)"
        by blast
      have "k = 0"
      proof (rule ccontr)
        assume "k \<noteq> 0"
        then have "0 < k" by simp
        with k(3) have "fst (run ((p # ps) ! 0) (after run (take 0 (p # ps)) a)) = None" by blast
        with Some show False by simp
      qed
      with k Some show "run_in_order run (p # ps) (a, tr) = (Some e, a', tr')"
        by (simp add: step)
    qed
  qed
qed

text \<open>
  C2. For every AST, \<open>compile\<close> runs the six passes in the order types, callables, stages,
  pipeline declarations, pipeline arguments, top-level call, and stops at the first pass
  that returns an error. It is the in-order, stop-at-first-error run of that list; it
  returns \<open>nil\<close> exactly when each of the six passes, run on the AST its predecessors
  left, returns no error, and then all six were run; and it returns an error \<open>e\<close> exactly
  when some pass \<open>k\<close> returned \<open>e\<close> after passes \<open>0 .. k - 1\<close> had succeeded, and then the
  passes run were \<open>0 .. k\<close> and no later one.
\<close>

theorem compile_six_passes:
  "compile run global = run_in_order run six_passes (global, [])
   \<and> six_passes = [compileTypes, Callables_compile, compileStages,
        compilePipelineDecs, compilePipelineArgs, compileCall]
   \<and> (compile run global = (None, a', tr') \<longleftrightarrow>
        (\<forall>i<6. fst (run (six_passes ! i) (after run (take i six_passes) global)) = None)
        \<and> a' = after run six_passes global \<and> tr' = six_passes)
   \<and> (compile run global = (Some e, a', tr') \<longleftrightarrow>
        (\<exists>k<6. fst (run (six_passes ! k) (after run (take k six_passes) global)) = Some e
           \<and> (\<forall>i<k. fst (run (six_passes ! i) (after run (take i six_passes) global)) = None)
           \<and> a' = after run (take (Suc k) six_passes) global
           \<and> tr' = take (Suc k) six_passes))"
proof -
  have len: "length six_passes = 6" by (simp add: six_passes_def)
  show ?thesis
    using run_in_order_ok [of run six_passes global "[]" a' tr']
      run_in_order_err [of run six_passes global "[]" e a' tr']
    by (simp add: compile_run_in_order len) (simp add: six_passes_def)
qed

text \<open>
  With a stage pass that fails, the third pass is the last one run; with no failing pass
  all six run.
\<close>

theorem compile_six_passes_witness:
  "compile (failing_at compileStages) 0
     = (Some ''DuplicateNameError'', 3, [compileTypes, Callables_compile, compileStages])
   \<and> (\<exists>k<6. take (Suc k) six_passes = [compileTypes, Callables_compile, compileStages])"
proof -
  have c: "compile (failing_at compileStages) 0
     = (Some ''DuplicateNameError'', 3, [compileTypes, Callables_compile, compileStages])"
    by (simp add: compile_def invoke_def failing_at_def)
  have "\<exists>k<6. take (Suc k) six_passes = [compileTypes, Callables_compile, compileStages]"
    using compile_six_passes [of "failing_at compileStages" 0 3
        "[compileTypes, Callables_compile, compileStages]" "''DuplicateNameError''"] c
    by auto
  with c show ?thesis by simp
qed

subsection \<open>C5: a top-level stage call is wrapped in a pipeline\<close>

lemma wrapReturns_List:
  "BindStms_List (wrapReturns stage params returns)
     = BindStms_List returns @ map (wrapped_binding stage) params"
  by (induction params arbitrary: returns) (simp_all add: wrapped_binding_def Let_def)

lemma wrapReturns_Table_other:
  "k \<notin> Param_Id ` set params \<Longrightarrow>
   BindStms_Table (wrapReturns stage params returns) k = BindStms_Table returns k"
  by (induction params arbitrary: returns) (simp_all add: Let_def)

lemma wrapReturns_Table:
  "param \<in> set params \<Longrightarrow>
   \<exists>b. BindStms_Table (wrapReturns stage params returns) (Param_Id param) = Some b
     \<and> BindStm_Id b = Param_Id param
     \<and> BindStm_Exp b = RefExp KindCall (Stage_Id stage) (Param_Id param)"
proof (induction params arbitrary: returns param)
  case Nil
  then show ?case by simp
next
  case (Cons q params)
  show ?case
  proof (cases "param \<in> set params")
    case True
    then show ?thesis using Cons.IH by (simp add: Let_def)
  next
    case False
    then have "param = q" using Cons.prems by simp
    moreover have "Param_Id q \<notin> Param_Id ` set params \<or> Param_Id q \<in> Param_Id ` set params"
      by blast
    then show ?thesis
    proof
      assume "Param_Id q \<notin> Param_Id ` set params"
      then show ?thesis
        using \<open>param = q\<close> by (simp add: Let_def wrapReturns_Table_other)
    next
      assume "Param_Id q \<in> Param_Id ` set params"
      then obtain r where r: "r \<in> set params" "Param_Id r = Param_Id q" by auto
      from Cons.IH [OF r(1)] show ?thesis
        using \<open>param = q\<close> r(2) by (simp add: Let_def)
    qed
  qed
qed

text \<open>
  C5. For every top-level call whose callee is a declared stage, pipestance construction
  takes as its pipeline a synthetic one whose call list is exactly that one call and whose
  return bindings hold one binding per output parameter of the stage, in order: the
  binding of an output carries the output's id and type name and the reference expression
  of kind call that names the stage's id and the output's id. The lookup table of the
  return bindings has such a binding under each output's id, and nothing under any other
  key.
\<close>

theorem NewPipestance_wraps_stage:
  assumes "callables (CallStm_DecId callStm) = Some (StageDec stage)"
  shows "\<exists>p. NewPipestance_pipeline callables callStm = Inr p
     \<and> p = wrapStageAsPipeline callStm stage
     \<and> Pipeline_Calls p = [callStm]
     \<and> BindStms_List (Pipeline_Ret p) = map (wrapped_binding stage) (Stage_OutParams stage)
     \<and> length (BindStms_List (Pipeline_Ret p)) = length (Stage_OutParams stage)
     \<and> (\<forall>i<length (Stage_OutParams stage).
          BindStm_Exp (BindStms_List (Pipeline_Ret p) ! i)
            = RefExp KindCall (Stage_Id stage) (Param_Id (Stage_OutParams stage ! i)))
     \<and> (\<forall>param\<in>set (Stage_OutParams stage).
          \<exists>b. BindStms_Table (Pipeline_Ret p) (Param_Id param) = Some b
            \<and> BindStm_Id b = Param_Id param
            \<and> BindStm_Exp b = RefExp KindCall (Stage_Id stage) (Param_Id param))
     \<and> (\<forall>k. k \<notin> Param_Id ` set (Stage_OutParams stage)
          \<longrightarrow> BindStms_Table (Pipeline_Ret p) k = None)"
proof -
  let ?p = "wrapStageAsPipeline callStm stage"
  have sel: "NewPipestance_pipeline callables callStm = Inr ?p"
    using assms by (simp add: NewPipestance_pipeline_def)
  have calls: "Pipeline_Calls ?p = [callStm]"
    by (simp add: wrapStageAsPipeline_def Let_def)
  have lst: "BindStms_List (Pipeline_Ret ?p) = map (wrapped_binding stage) (Stage_OutParams stage)"
    by (simp add: wrapStageAsPipeline_def Let_def wrapReturns_List)
  have nth: "\<forall>i<length (Stage_OutParams stage).
          BindStm_Exp (BindStms_List (Pipeline_Ret ?p) ! i)
            = RefExp KindCall (Stage_Id stage) (Param_Id (Stage_OutParams stage ! i))"
    by (simp add: lst wrapped_binding_def)
  have tab: "\<forall>param\<in>set (Stage_OutParams stage).
          \<exists>b. BindStms_Table (Pipeline_Ret ?p) (Param_Id param) = Some b
            \<and> BindStm_Id b = Param_Id param
            \<and> BindStm_Exp b = RefExp KindCall (Stage_Id stage) (Param_Id param)"
    by (simp add: wrapStageAsPipeline_def Let_def wrapReturns_Table)
  have other: "\<forall>k. k \<notin> Param_Id ` set (Stage_OutParams stage)
          \<longrightarrow> BindStms_Table (Pipeline_Ret ?p) k = None"
    by (simp add: wrapStageAsPipeline_def Let_def wrapReturns_Table_other)
  show ?thesis
    using sel calls lst nth tab other by simp
qed

theorem NewPipestance_wraps_stage_witness:
  "exCallables (CallStm_DecId exCall) = Some (StageDec exStage)
   \<and> (\<exists>p. NewPipestance_pipeline exCallables exCall = Inr p
        \<and> Pipeline_Calls p = [exCall]
        \<and> map BindStm_Exp (BindStms_List (Pipeline_Ret p))
            = [RefExp KindCall ''SUM_SQUARES'' ''sum'', RefExp KindCall ''SUM_SQUARES'' ''log''])"
proof -
  have h: "exCallables (CallStm_DecId exCall) = Some (StageDec exStage)"
    by (simp add: exCallables_def exCall_def)
  from NewPipestance_wraps_stage [of exCallables exCall exStage, OF h] obtain p where
    p: "NewPipestance_pipeline exCallables exCall = Inr p" "Pipeline_Calls p = [exCall]"
      "BindStms_List (Pipeline_Ret p) = map (wrapped_binding exStage) (Stage_OutParams exStage)"
    by blast
  have "map BindStm_Exp (BindStms_List (Pipeline_Ret p))
      = [RefExp KindCall ''SUM_SQUARES'' ''sum'', RefExp KindCall ''SUM_SQUARES'' ''log'']"
    by (simp add: p(3) exStage_def wrapped_binding_def)
  with p have "\<exists>p. NewPipestance_pipeline exCallables exCall = Inr p
        \<and> Pipeline_Calls p = [exCall]
        \<and> map BindStm_Exp (BindStms_List (Pipeline_Ret p))
            = [RefExp KindCall ''SUM_SQUARES'' ''sum'', RefExp KindCall ''SUM_SQUARES'' ''log'']"
    by (intro exI [of _ p]) simp
  with h show ?thesis by (rule conjI)
qed

subsection \<open>C10: a read-only pipestance is inert\<close>

text \<open>
  C10. For every pipestance whose \<open>Lock\<close> metadata file does not exist (read-only mode),
  \<open>StepNodes\<close> returns false without stepping a node, \<open>KillWithMessage\<close> returns
  without killing a node, and \<open>Reset\<close> returns the runtime error "Pipestance is in read
  only mode." without resetting a node: whatever the node methods would do, the
  pipestance, the nodes, the metadata handles, the disk and everything else come back as
  they were.
\<close>

theorem readOnly_inert:
  assumes "readOnly ps"
  shows "StepNodes ops ps w = (False, ps, w)
     \<and> KillWithMessage ops message ps w = w
     \<and> Reset ops ps w = (Some (RuntimeError ''Pipestance is in read only mode.''), ps, w)"
  using assms by (simp add: StepNodes_def KillWithMessage_def Reset_def)

text \<open>
  A pipestance handle whose cache has no \<open>Lock\<close> is read-only; with node methods that
  would fail every node, the world still comes back unchanged.
\<close>

theorem readOnly_inert_witness:
  "readOnly mkPipestance
   \<and> StepNodes failingOps mkPipestance (mkWorld [Running, Failed] [0, 1])
       = (False, mkPipestance, mkWorld [Running, Failed] [0, 1])
   \<and> KillWithMessage failingOps ''stop'' mkPipestance (mkWorld [Running, Failed] [0, 1])
       = mkWorld [Running, Failed] [0, 1]
   \<and> fst (Reset failingOps mkPipestance (mkWorld [Running, Failed] [0, 1]))
       = Some (RuntimeError ''Pipestance is in read only mode.'')"
proof -
  have h: "readOnly mkPipestance"
    by (simp add: readOnly_def exists_def mkPipestance_def mkMetadata_def)
  show ?thesis
    using h readOnly_inert [OF h, of failingOps "mkWorld [Running, Failed] [0, 1]" "''stop''"]
    by simp
qed

subsection \<open>C7: locking a pipestance directory\<close>

lemma Lock_free:
  "fs w (Metadata_path (metadata ps)) Lock = None \<Longrightarrow>
   fst (Pipestance_Lock t ps w) = None
   \<and> fs (snd (snd (Pipestance_Lock t ps w))) (Metadata_path (metadata ps)) Lock = Some t
   \<and> io_log (snd (snd (Pipestance_Lock t ps w)))
       = io_log w @ [FileWritten (Metadata_path (metadata ps)) Lock]"
  by (simp add: Pipestance_Lock_def Let_def loadCache_def exists_def Metadata_Write_def
      fs_write_def)

lemma Lock_held:
  "fs w (Metadata_path (metadata ps)) Lock \<noteq> None \<Longrightarrow>
   is_locked_error (fst (Pipestance_Lock t ps w)) \<and> snd (snd (Pipestance_Lock t ps w)) = w"
  by (simp add: Pipestance_Lock_def Let_def loadCache_def exists_def is_locked_error_def)

text \<open>
  C7, as amended. \<open>Lock\<close> returns the locked error if and only if the \<open>Lock\<close> file of the
  pipestance's metadata directory exists when it is called, and returns \<open>nil\<close> otherwise.
  For every pipestance directory that holds no \<open>Lock\<close> file, of two successive attempts
  to lock it (through the same or through two pipestance objects on that directory, with
  no unlock in between) the first succeeds, writing the \<open>Lock\<close> timestamp file, and the
  second returns the locked error and changes nothing.
\<close>

theorem Lock_exclusion:
  "(is_locked_error (fst (Pipestance_Lock t ps w))
      \<longleftrightarrow> fs w (Metadata_path (metadata ps)) Lock \<noteq> None)
   \<and> (fst (Pipestance_Lock t ps w) = None
      \<longleftrightarrow> fs w (Metadata_path (metadata ps)) Lock = None)
   \<and> (fs w (Metadata_path (metadata ps)) Lock = None
        \<and> Metadata_path (metadata ps') = Metadata_path (metadata ps)
      \<longrightarrow> fst (Pipestance_Lock t ps w) = None
        \<and> fs (snd (snd (Pipestance_Lock t ps w))) (Metadata_path (metadata ps)) Lock = Some t
        \<and> is_locked_error (fst (Pipestance_Lock t' ps' (snd (snd (Pipestance_Lock t ps w)))))
        \<and> snd (snd (Pipestance_Lock t' ps' (snd (snd (Pipestance_Lock t ps w)))))
            = snd (snd (Pipestance_Lock t ps w)))"
proof (cases "fs w (Metadata_path (metadata ps)) Lock = None")
  case True
  note free = Lock_free [OF True, of t]
  have not_locked: "\<not> is_locked_error (fst (Pipestance_Lock t ps w))"
    using free by (simp add: is_locked_error_def)
  have second: "Metadata_path (metadata ps') = Metadata_path (metadata ps) \<Longrightarrow>
      is_locked_error (fst (Pipestance_Lock t' ps' (snd (snd (Pipestance_Lock t ps w)))))
      \<and> snd (snd (Pipestance_Lock t' ps' (snd (snd (Pipestance_Lock t ps w)))))
            = snd (snd (Pipestance_Lock t ps w))"
    using free Lock_held [of "snd (snd (Pipestance_Lock t ps w))" ps' t'] by simp
  show ?thesis using True free not_locked second by simp
next
  case False
  then show ?thesis
    using Lock_held [OF False, of t] by (auto simp: is_locked_error_def)
qed

theorem Lock_exclusion_witness:
  "fs (mkWorld [Running] [0]) (Metadata_path (metadata mkPipestance)) Lock = None
   \<and> fst (Pipestance_Lock ''t1'' mkPipestance (mkWorld [Running] [0])) = None
   \<and> is_locked_error (fst (Pipestance_Lock ''t2'' mkPipestance
        (snd (snd (Pipestance_Lock ''t1'' mkPipestance (mkWorld [Running] [0]))))))"
proof -
  have h: "fs (mkWorld [Running] [0]) (Metadata_path (metadata mkPipestance)) Lock = None"
    by (simp add: mkWorld_def)
  show ?thesis
    using h Lock_exclusion [of "''t1''" mkPipestance "mkWorld [Running] [0]" mkPipestance "''t2''"]
    by simp
qed

text \<open>
  The claim as stated fails on a directory that is already locked, for instance by a
  controller that died: neither of two attempts succeeds.
\<close>

theorem Lock_twice_counterexample:
  "is_locked_error (fst (Pipestance_Lock ''t1'' mkPipestance lockedWorld))
   \<and> is_locked_error (fst (Pipestance_Lock ''t2'' mkPipestance
        (snd (snd (Pipestance_Lock ''t1'' mkPipestance lockedWorld)))))"
  by (simp add: Pipestance_Lock_def Let_def loadCache_def exists_def is_locked_error_def
      lockedWorld_def mkPipestance_def mkMetadata_def mkWorld_def fs_write_def)

text \<open>
  The amendment speaks of successive attempts: the test for the file and its creation are
  two steps, and two attempts that both test before either writes both succeed.
\<close>

lemma Lock_overlapping_both_succeed:
  assumes "fs w (Metadata_path (metadata psa)) Lock = None"
    and "Metadata_path (metadata psb) = Metadata_path (metadata psa)"
  shows "fst (Lock_overlapping ta tb psa psb w) = None"
    and "fst (snd (Lock_overlapping ta tb psa psb w)) = None"
  using assms by (simp_all add: Lock_overlapping_def Let_def loadCache_def exists_def)

subsection \<open>C8: the arguments of the onfinish handler\<close>

lemma GetFatalError_Nil:
  "\<not> anyInState h Failed ns \<Longrightarrow> GetFatalError h ns = []"
  by (induction ns) (auto split: if_splits)

lemma GetState_fst_again:
  "fst (GetState subtree (snd (GetState subtree ps w)) w) = fst (GetState subtree ps w)"
  by (simp add: GetState_def Let_def split_beta allNodes_again)

text \<open>
  C8, as amended. Whenever an onfinish handler is configured and \<open>LookPath\<close> finds it,
  \<open>OnFinishHook\<close> runs it with three or four positional arguments: the first is the
  pipestance path, the second the string of the pipestance state, and there is a fourth
  exactly when that state is \<open>Failed\<close> and the failed frontier node that
  \<open>GetFatalError\<close> reports has an error file, which then is the path of its first error
  file relative to the directory of the pipestance path. When no handler is configured, or
  \<open>LookPath\<close> does not find it, nothing is run.
\<close>

theorem OnFinishHook_arguments:
  "(Config_OnFinishHandler (config w) \<noteq> []
      \<and> LookPath ops (Config_OnFinishHandler (config w)) = Some real_path
    \<longrightarrow> (\<exists>args. fst (OnFinishHook ops ps w) = Some (real_path, args)
          \<and> take 2 args = [GetPath ps w, stateString ops (fst (GetState (Node_allNodes ops) ps w))]
          \<and> (length args = 3 \<or> length args = 4)
          \<and> (length args = 4 \<longleftrightarrow>
                fst (GetState (Node_allNodes ops) ps w) = Failed
                \<and> GetFatalError (heap w) (getFrontierNodes w) \<noteq> [])
          \<and> (length args = 4 \<longrightarrow>
                args ! 3 = filepath_Rel ops (filepath_Dir ops (GetPath ps w))
                             (hd (GetFatalError (heap w) (getFrontierNodes w))))))
   \<and> (Config_OnFinishHandler (config w) = []
        \<or> LookPath ops (Config_OnFinishHandler (config w)) = None
      \<longrightarrow> fst (OnFinishHook ops ps w) = None)"
proof -
  let ?st = "fst (GetState (Node_allNodes ops) ps w)"
  have again: "fst (GetState (Node_allNodes ops) (snd (GetState (Node_allNodes ops) ps w)) w) = ?st"
    by (rule GetState_fst_again)
  show ?thesis
    unfolding OnFinishHook_def Let_def split_beta
    by (auto simp: again split: option.splits)
qed

theorem OnFinishHook_arguments_witness:
  "Config_OnFinishHandler (config (hookWorld Failed)) \<noteq> []
   \<and> LookPath hookOps (Config_OnFinishHandler (config (hookWorld Failed))) = Some ''/usr/bin/notify.sh''
   \<and> (\<exists>args. fst (OnFinishHook hookOps hookPipestance (hookWorld Failed))
                 = Some (''/usr/bin/notify.sh'', args)
          \<and> take 2 args = [''/runs/ps1'', ''failed'']
          \<and> length args = 4
          \<and> args ! 3 = ''ps1/PIPE/STAGE/fork0/_errors'')"
proof -
  have cfg: "Config_OnFinishHandler (config (hookWorld Failed)) = ''notify.sh''"
    by (simp add: hookWorld_def mkWorld_def mkConfig_def)
  have look: "LookPath hookOps ''notify.sh'' = Some ''/usr/bin/notify.sh''"
    by (simp add: hookOps_def failingOps_def)
  have fr: "getFrontierNodes (hookWorld Failed) = [2]"
    by (simp add: getFrontierNodes_def GetNodes_def hookWorld_def mkWorld_def)
  have st: "fst (GetState (Node_allNodes hookOps) hookPipestance (hookWorld Failed)) = Failed"
    by (simp add: GetState_def Let_def fr) (simp add: hookWorld_def)
  have fe: "GetFatalError (heap (hookWorld Failed)) (getFrontierNodes (hookWorld Failed))
      = [''/runs/ps1/PIPE/STAGE/fork0/_errors'']"
    by (simp add: fr) (simp add: hookWorld_def)
  have path: "GetPath hookPipestance (hookWorld Failed) = ''/runs/ps1''"
    by (simp add: GetPath_def getNode_def hookPipestance_def hookWorld_def)
  have str: "stateString hookOps Failed = ''failed''"
    by (simp add: hookOps_def failingOps_def)
  have rel: "filepath_Rel hookOps (filepath_Dir hookOps ''/runs/ps1'')
      ''/runs/ps1/PIPE/STAGE/fork0/_errors'' = ''ps1/PIPE/STAGE/fork0/_errors''"
    by (simp add: hookOps_def failingOps_def)
  show ?thesis
    using OnFinishHook_arguments [of "hookWorld Failed" hookOps "''/usr/bin/notify.sh''" hookPipestance]
    by (auto simp add: cfg look st fe path str rel)
qed

text \<open>
  The claim as stated fails when the configured handler cannot be found: the source logs
  that and returns, and no handler runs.
\<close>

theorem OnFinishHook_counterexample:
  "Config_OnFinishHandler (config (hookWorld Failed)) \<noteq> []
   \<and> fst (OnFinishHook unresolvedOps hookPipestance (hookWorld Failed)) = None"
  by (simp add: OnFinishHook_def Let_def split_beta unresolvedOps_def hookOps_def failingOps_def)
    (simp add: hookWorld_def mkWorld_def mkConfig_def)

text \<open>
  The third argument is the name of the pipestance's own node, which \<open>GetPname\<close>
  returns, and not the name of its parent, which \<open>GetPsid\<close> returns; the source's comment
  calls it the pipestance ID.
\<close>

lemma OnFinishHook_third_argument:
  "Config_OnFinishHandler (config w) \<noteq> [] \<Longrightarrow>
   LookPath ops (Config_OnFinishHandler (config w)) = Some real_path \<Longrightarrow>
   snd (the (fst (OnFinishHook ops ps w))) ! 2 = GetPname ps w"
  unfolding OnFinishHook_def Let_def split_beta
  by (simp add: GetPname_def)

lemma OnFinishHook_third_argument_example:
  "fst (OnFinishHook hookOps hookPipestance (hookWorld Complete))
     = Some (''/usr/bin/notify.sh'', [''/runs/ps1'', ''complete'', ''PIPE''])"
  and "GetPsid hookPipestance (hookWorld Complete) = ''ps1''"
  by code_simp+

subsection \<open>C6: immortalizing twice\<close>

lemma writes_of_append [simp]:
  "writes_of d n (xs @ ys) = writes_of d n xs + writes_of d n ys"
  by (simp add: writes_of_def)

lemma writes_of_single [simp]:
  "writes_of d n [] = 0"
  "writes_of d n [FileWritten d' n'] = (if d' = d \<and> n' = n then 1 else 0)"
  "writes_of d n [ZipFailed d'] = 0"
  by (auto simp: writes_of_def)

lemma fold_os_Remove_frame:
  "heap (fold os_Remove ps w) = heap w \<and> metas (fold os_Remove ps w) = metas w
   \<and> io_log (fold os_Remove ps w) = io_log w"
  by (induction ps arbitrary: w) (simp_all add: os_Remove_def)

lemma fold_os_Remove_fs:
  "\<forall>p\<in>set ps. fst p \<noteq> d \<Longrightarrow> fs (fold os_Remove ps w) d = fs w d"
  by (induction ps arbitrary: w) (auto simp add: os_Remove_def fs_remove_def)

lemma removeMetadata_fs:
  "\<forall>r\<in>set rs. Metadata_path (m r) \<noteq> d \<Longrightarrow>
   fold (\<lambda>r f. f(Metadata_path (m r) := (\<lambda>k. None))) rs f d = f d"
  by (induction rs arbitrary: f) auto

lemma fold_removeMetadata_frame:
  "heap (fold removeMetadata ns w) = heap w \<and> metas (fold removeMetadata ns w) = metas w
   \<and> io_log (fold removeMetadata ns w) = io_log w"
  by (induction ns arbitrary: w) (simp_all add: removeMetadata_def)

lemma fold_removeMetadata_fs:
  "\<forall>n\<in>set ns. \<forall>r\<in>set (Node_metadatas (heap w n)). Metadata_path (metas w r) \<noteq> d \<Longrightarrow>
   fs (fold removeMetadata ns w) d = fs w d"
proof (induction ns arbitrary: w)
  case Nil
  then show ?case by simp
next
  case (Cons n ns)
  have step: "fs (removeMetadata n w) d = fs w d"
    using Cons.prems by (simp add: removeMetadata_def removeMetadata_fs)
  have same: "heap (removeMetadata n w) = heap w" "metas (removeMetadata n w) = metas w"
    by (simp_all add: removeMetadata_def)
  have "fs (fold removeMetadata ns (removeMetadata n w)) d = fs (removeMetadata n w) d"
    using Cons.prems by (intro Cons.IH) (simp add: same)
  then show ?case by (simp add: step)
qed

lemma glob_fst: "p \<in> set (glob f m) \<Longrightarrow> fst p = Metadata_path m"
  by (auto simp: glob_def)

text \<open>What one call of \<open>ZipMetadata\<close> does to the log and to the pipestance's directory.\<close>

lemma ZipMetadata_effect:
  assumes "ZipMetadata ops d ps w = (e, ps', w')"
  shows "metadata ps' = metadata ps"
    and "fst (allNodes (Node_allNodes ops) ps') = fst (allNodes (Node_allNodes ops) ps)"
    and "heap w' = heap w \<and> metas w' = metas w"
    and "\<exists>new. io_log w' = io_log w @ new
           \<and> (new = [] \<or> new = [ZipFailed d] \<or> new = [FileWritten d MetadataZip])
           \<and> (new \<noteq> [FileWritten d MetadataZip] \<longrightarrow> fs w' = fs w)
           \<and> (new = [FileWritten d MetadataZip] \<longrightarrow> e = None
                \<and> ((\<forall>n\<in>set (fst (allNodes (Node_allNodes ops) ps)).
                       \<forall>r\<in>set (Node_metadatas (heap w n)). Metadata_path (metas w r) \<noteq> d)
                     \<longrightarrow> fs w' d = (fs w d)(MetadataZip \<mapsto> ''zip'')))"
proof -
  let ?nodes = "fst (allNodes (Node_allNodes ops) ps)"
  let ?ps1 = "snd (allNodes (Node_allNodes ops) ps)"
  let ?metadatas = "concat (map (\<lambda>n. Node_metadatas (heap w n)) ?nodes)"
  let ?removePaths = "concat (map (\<lambda>r. glob (fs w) (metas w r)) ?metadatas)"
  let ?w1 = "w\<lparr>fs := fs_write (fs w) d MetadataZip ''zip'',
                io_log := io_log w @ [FileWritten d MetadataZip]\<rparr>"
  let ?w3 = "fold removeMetadata ?nodes (fold os_Remove ?removePaths ?w1)"
  have ps1: "metadata ?ps1 = metadata ps"
    "fst (allNodes (Node_allNodes ops) ?ps1) = ?nodes"
    by (simp_all add: allNodes_def Let_def split: option.splits)
  consider (off) "\<not> Config_Zip (config w)"
    | (failed) err where "Config_Zip (config w)" "CreateZip ops d ?removePaths w = Some err"
    | (ok) "Config_Zip (config w)" "CreateZip ops d ?removePaths w = None"
    by (cases "CreateZip ops d ?removePaths w") auto
  then have res: "(e = None \<and> ps' = ps \<and> w' = w)
      \<or> (ps' = ?ps1 \<and> w' = w\<lparr>io_log := io_log w @ [ZipFailed d]\<rparr>)
      \<or> (e = None \<and> ps' = ?ps1 \<and> w' = ?w3)"
    using assms by cases (auto simp: ZipMetadata_def Let_def split_beta)
  have frame3: "heap ?w3 = heap w" "metas ?w3 = metas w"
    "io_log ?w3 = io_log w @ [FileWritten d MetadataZip]"
    by (simp_all add: fold_removeMetadata_frame fold_os_Remove_frame)
  have fs3: "fs ?w3 d = (fs w d)(MetadataZip \<mapsto> ''zip'')"
    if apart: "\<forall>n\<in>set ?nodes. \<forall>r\<in>set (Node_metadatas (heap w n)). Metadata_path (metas w r) \<noteq> d"
  proof -
    have rp: "\<forall>p\<in>set ?removePaths. fst p \<noteq> d"
    proof
      fix p assume "p \<in> set ?removePaths"
      then obtain n r where nr: "n \<in> set ?nodes" "r \<in> set (Node_metadatas (heap w n))"
        "p \<in> set (glob (fs w) (metas w r))" by auto
      from nr(3) have "fst p = Metadata_path (metas w r)" by (rule glob_fst)
      with apart nr(1,2) show "fst p \<noteq> d" by simp
    qed
    have "fs ?w3 d = fs (fold os_Remove ?removePaths ?w1) d"
      using apart by (intro fold_removeMetadata_fs) (simp add: fold_os_Remove_frame)
    also have "\<dots> = fs ?w1 d" using rp by (rule fold_os_Remove_fs)
    finally show ?thesis by (simp add: fs_write_def)
  qed
  show "metadata ps' = metadata ps" using res ps1 by auto
  show "fst (allNodes (Node_allNodes ops) ps') = ?nodes" using res ps1 by auto
  show "heap w' = heap w \<and> metas w' = metas w" using res frame3 by auto
  from res show "\<exists>new. io_log w' = io_log w @ new
           \<and> (new = [] \<or> new = [ZipFailed d] \<or> new = [FileWritten d MetadataZip])
           \<and> (new \<noteq> [FileWritten d MetadataZip] \<longrightarrow> fs w' = fs w)
           \<and> (new = [FileWritten d MetadataZip] \<longrightarrow> e = None
                \<and> ((\<forall>n\<in>set ?nodes.
                       \<forall>r\<in>set (Node_metadatas (heap w n)). Metadata_path (metas w r) \<noteq> d)
                     \<longrightarrow> fs w' d = (fs w d)(MetadataZip \<mapsto> ''zip'')))"
  proof (elim disjE)
    assume "e = None \<and> ps' = ps \<and> w' = w"
    then show ?thesis by (intro exI [of _ "[]"]) simp
  next
    assume "ps' = ?ps1 \<and> w' = w\<lparr>io_log := io_log w @ [ZipFailed d]\<rparr>"
    then show ?thesis by (intro exI [of _ "[ZipFailed d]"]) simp
  next
    assume "e = None \<and> ps' = ?ps1 \<and> w' = ?w3"
    then show ?thesis
      using frame3 fs3 by (intro exI [of _ "[FileWritten d MetadataZip]"]) simp
  qed
qed

lemma writeSerialized_effect:
  assumes "writeSerialized ops name ps w = (ps', w')"
  shows "Metadata_path (metadata ps') = Metadata_path (metadata ps)"
    and "fst (allNodes (Node_allNodes ops) ps') = fst (allNodes (Node_allNodes ops) ps)"
    and "heap w' = heap w \<and> metas w' = metas w"
    and "n \<noteq> name \<Longrightarrow> exists (metadata ps') n = exists (metadata ps) n"
    and "exists (metadata ps) name \<Longrightarrow> w' = w"
    and "\<not> exists (metadata ps) name \<Longrightarrow>
           io_log w' = io_log w @ [FileWritten (Metadata_path (metadata ps)) name]
           \<and> (\<exists>text. fs w' = fs_write (fs w) (Metadata_path (metadata ps)) name text)"
  using assms
  by (auto simp: writeSerialized_def Let_def split_beta Metadata_Write_def exists_def
      allNodes_def split: if_splits option.splits)

text \<open>
  One call of \<open>Immortalize\<close>: what it appends to the log holds at most one write of each
  file of the pipestance's directory, none of a file that was there before the call, and,
  when the node metadata lies apart, a file it wrote is there after the call.
\<close>

lemma Immortalize_effect:
  assumes call: "Immortalize ops force ps w = (e, ps', w')"
  defines "d \<equiv> Metadata_path (metadata ps)"
  shows "Metadata_path (metadata ps') = d"
    and "\<exists>new. io_log w' = io_log w @ new
          \<and> (\<forall>a. writes_of d a new \<le> 1
                \<and> (fs w d a \<noteq> None \<longrightarrow> writes_of d a new = 0)
                \<and> (nodes_apart ops ps w \<longrightarrow> writes_of d a new = 1 \<longrightarrow> fs w' d a \<noteq> None))"
    and "fs w d MetadataZip \<noteq> None \<Longrightarrow>
         \<exists>new. io_log w' = io_log w @ new
           \<and> set new \<subseteq> {FileWritten d Perf, FileWritten d FinalState}"
proof -
  let ?A = "Node_allNodes ops"
  let ?ps0 = "ps\<lparr>metadata := loadCache (fs w) (metadata ps)\<rparr>"
  obtain ps1 w1 where s1: "writeSerialized ops Perf ?ps0 w = (ps1, w1)"
    by (cases "writeSerialized ops Perf ?ps0 w")
  obtain ps2 w2 where s2: "writeSerialized ops FinalState ps1 w1 = (ps2, w2)"
    by (cases "writeSerialized ops FinalState ps1 w1")
  obtain e3 ps3 w3 where s3: "ZipMetadata ops d ps2 w2 = (e3, ps3, w3)"
    by (cases "ZipMetadata ops d ps2 w2")
  have ex0: "exists (metadata ?ps0) a \<longleftrightarrow> fs w d a \<noteq> None" for a
    by (simp add: exists_def loadCache_def d_def)
  have d0: "Metadata_path (metadata ?ps0) = d"
    by (simp add: loadCache_def d_def)
  have all0: "fst (allNodes ?A ?ps0) = fst (allNodes ?A ps)"
    by (simp add: allNodes_def Let_def split: option.splits)
  note e1 = writeSerialized_effect [OF s1]
  note e2 = writeSerialized_effect [OF s2]
  note z = ZipMetadata_effect [OF s3]
  have d2: "Metadata_path (metadata ps2) = d" using e1(1) e2(1) d0 by simp
  have ex2Z: "exists (metadata ps2) MetadataZip \<longleftrightarrow> fs w d MetadataZip \<noteq> None"
    using e1(4) [of MetadataZip] e2(4) [of MetadataZip] ex0 by simp
  have ex1F: "exists (metadata ps1) FinalState \<longleftrightarrow> fs w d FinalState \<noteq> None"
    using e1(4) [of FinalState] ex0 by simp
  define n1 where "n1 = (if fs w d Perf = None then [FileWritten d Perf] else [])"
  define n2 where "n2 = (if fs w d FinalState = None then [FileWritten d FinalState] else [])"
  have log1: "io_log w1 = io_log w @ n1"
    using e1(5,6) ex0 [of Perf] d0 by (auto simp: n1_def)
  have log2: "io_log w2 = io_log w1 @ n2"
    using e2(5,6) ex1F e1(1) d0 by (auto simp: n2_def)
  have fs1: "fs w1 d Perf \<noteq> None \<and> (\<forall>a. a \<noteq> Perf \<longrightarrow> fs w1 d a = fs w d a)"
    using e1(5,6) ex0 [of Perf] d0 by (cases "fs w d Perf = None") (auto simp: fs_write_def)
  have fs2: "fs w2 d FinalState \<noteq> None \<and> (\<forall>a. a \<noteq> FinalState \<longrightarrow> fs w2 d a = fs w1 d a)"
    using e2(5,6) ex1F e1(1) d0 fs1
    by (cases "fs w d FinalState = None") (auto simp: fs_write_def)
  have apart2: "\<forall>n\<in>set (fst (allNodes ?A ps2)).
      \<forall>r\<in>set (Node_metadatas (heap w2 n)). Metadata_path (metas w2 r) \<noteq> d"
    if "nodes_apart ops ps w"
    using that e1(2,3) e2(2,3) all0 by (simp add: nodes_apart_def d_def)
  from z(4) obtain n3 where n3: "io_log w3 = io_log w2 @ n3"
    "n3 = [] \<or> n3 = [ZipFailed d] \<or> n3 = [FileWritten d MetadataZip]"
    "n3 \<noteq> [FileWritten d MetadataZip] \<longrightarrow> fs w3 = fs w2"
    "n3 = [FileWritten d MetadataZip] \<longrightarrow> e3 = None
       \<and> ((\<forall>n\<in>set (fst (allNodes ?A ps2)).
              \<forall>r\<in>set (Node_metadatas (heap w2 n)). Metadata_path (metas w2 r) \<noteq> d)
            \<longrightarrow> fs w3 d = (fs w2 d)(MetadataZip \<mapsto> ''zip''))"
    by blast
  have unf: "Immortalize ops force ps w =
      (if \<not> force \<and> readOnly ps
       then (Some (RuntimeError ''Pipestance is in read only mode.''), ps, w)
       else if fs w d MetadataZip = None
         then (case e3 of
                 Some err \<Rightarrow> (Some err, ps3, os_Remove (d, MetadataZip) w3)
               | None \<Rightarrow> (None, ps3, w3))
         else (None, ps2, w2))"
    by (simp add: Immortalize_def Let_def s1 s2 d2 s3 ex2Z split: option.splits)
  have res: "(ps' = ps \<and> w' = w)
      \<or> (ps' = ps2 \<and> w' = w2 \<and> fs w d MetadataZip \<noteq> None)
      \<or> (ps' = ps3 \<and> fs w d MetadataZip = None
          \<and> ((e3 = None \<and> w' = w3) \<or> (e3 \<noteq> None \<and> w' = os_Remove (d, MetadataZip) w3)))"
    using call unfolding unf by (auto split: if_splits option.splits)
  show "Metadata_path (metadata ps') = d"
    using res d2 z(1) by (auto simp: d_def)
  from res show "\<exists>new. io_log w' = io_log w @ new
          \<and> (\<forall>a. writes_of d a new \<le> 1
                \<and> (fs w d a \<noteq> None \<longrightarrow> writes_of d a new = 0)
                \<and> (nodes_apart ops ps w \<longrightarrow> writes_of d a new = 1 \<longrightarrow> fs w' d a \<noteq> None))"
  proof (elim disjE conjE)
    assume "ps' = ps" "w' = w"
    then show ?thesis by (intro exI [of _ "[]"]) simp
  next
    assume a: "ps' = ps2" "w' = w2" "fs w d MetadataZip \<noteq> None"
    show ?thesis
      using a fs1 fs2
      by (intro exI [of _ "n1 @ n2"])
        (auto simp: log1 log2 n1_def n2_def split: if_splits)
  next
    assume a: "ps' = ps3" "fs w d MetadataZip = None" "e3 = None" "w' = w3"
    have keep: "fs w3 d Perf \<noteq> None \<and> fs w3 d FinalState \<noteq> None
        \<and> (n3 = [FileWritten d MetadataZip] \<longrightarrow> fs w3 d MetadataZip \<noteq> None)"
      if "nodes_apart ops ps w"
      using n3(2,3,4) apart2 [OF that] fs1 fs2 by auto
    show ?thesis
      using a n3(2) keep
      by (intro exI [of _ "n1 @ n2 @ n3"])
        (auto simp: log1 log2 n3(1) n1_def n2_def split: if_splits)
  next
    assume a: "ps' = ps3" "fs w d MetadataZip = None" "e3 \<noteq> None"
      "w' = os_Remove (d, MetadataZip) w3"
    have n3': "n3 \<noteq> [FileWritten d MetadataZip]" using a(3) n3(4) by auto
    then have "fs w3 = fs w2" using n3(3) by simp
    then have keep: "fs w' d Perf \<noteq> None \<and> fs w' d FinalState \<noteq> None"
      using fs1 fs2 a(4) by (simp add: os_Remove_def fs_remove_def)
    have log': "io_log (os_Remove (d, MetadataZip) w3) = io_log w3"
      by (simp add: os_Remove_def)
    show ?thesis
      using a n3(2) n3' keep
      by (intro exI [of _ "n1 @ n2 @ n3"])
        (auto simp: log' log1 log2 n3(1) n1_def n2_def split: if_splits)
  qed
  show "\<exists>new. io_log w' = io_log w @ new
           \<and> set new \<subseteq> {FileWritten d Perf, FileWritten d FinalState}"
    if z: "fs w d MetadataZip \<noteq> None"
  proof -
    from res z have "(ps' = ps \<and> w' = w) \<or> (ps' = ps2 \<and> w' = w2)" by auto
    then show ?thesis
    proof
      assume "ps' = ps \<and> w' = w"
      then show ?thesis by (intro exI [of _ "[]"]) simp
    next
      assume "ps' = ps2 \<and> w' = w2"
      then show ?thesis
        by (intro exI [of _ "n1 @ n2"]) (auto simp: log1 log2 n1_def n2_def)
    qed
  qed
qed

text \<open>
  C6. \<open>Immortalize\<close> is idempotent over its artifacts: for every pipestance whose node
  metadata lies in directories other than the pipestance's own, two calls of
  \<open>Immortalize\<close> in a row, forced or not, write each of \<open>Perf\<close>, \<open>FinalState\<close> and
  \<open>MetadataZip\<close> at most once in total, and the second call does not write an artifact
  whose file exists when it starts; when the zip exists it does not call \<open>CreateZip\<close>
  at all. (A call of \<open>CreateZip\<close> that fails leaves no \<open>MetadataZip\<close>: the source
  removes what it may have left. It is logged as a failure and not as a write, and the
  next call of \<open>Immortalize\<close> tries again.)
\<close>

theorem Immortalize_twice:
  assumes "nodes_apart ops ps w"
    and "Immortalize ops force1 ps w = (e1, ps1, w1)"
    and "Immortalize ops force2 ps1 w1 = (e2, ps2, w2)"
  shows "(\<forall>a\<in>{Perf, FinalState, MetadataZip}.
           writes_of (Metadata_path (metadata ps)) a (io_log w2)
             \<le> writes_of (Metadata_path (metadata ps)) a (io_log w) + 1
           \<and> (fs w1 (Metadata_path (metadata ps)) a \<noteq> None \<longrightarrow>
                writes_of (Metadata_path (metadata ps)) a (io_log w2)
                  = writes_of (Metadata_path (metadata ps)) a (io_log w1)))
     \<and> (fs w1 (Metadata_path (metadata ps)) MetadataZip \<noteq> None \<longrightarrow>
          (\<exists>new. io_log w2 = io_log w1 @ new
             \<and> set new \<subseteq> {FileWritten (Metadata_path (metadata ps)) Perf,
                          FileWritten (Metadata_path (metadata ps)) FinalState}))"
proof -
  let ?d = "Metadata_path (metadata ps)"
  note f = Immortalize_effect [OF assms(2)]
  note s = Immortalize_effect [OF assms(3)]
  have zip: "\<exists>new. io_log w2 = io_log w1 @ new
      \<and> set new \<subseteq> {FileWritten ?d Perf, FileWritten ?d FinalState}"
    if "fs w1 ?d MetadataZip \<noteq> None"
    using s(3) that f(1) by simp
  have each: "writes_of ?d a (io_log w2) \<le> writes_of ?d a (io_log w) + 1
           \<and> (fs w1 ?d a \<noteq> None \<longrightarrow> writes_of ?d a (io_log w2) = writes_of ?d a (io_log w1))"
    for a
  proof -
  from f(2) obtain new1 where new1: "io_log w1 = io_log w @ new1"
    "writes_of ?d a new1 \<le> 1"
    "nodes_apart ops ps w \<longrightarrow> writes_of ?d a new1 = 1 \<longrightarrow> fs w1 ?d a \<noteq> None"
    by blast
  from s(2) f(1) obtain new2 where new2: "io_log w2 = io_log w1 @ new2"
    "writes_of ?d a new2 \<le> 1"
    "fs w1 ?d a \<noteq> None \<longrightarrow> writes_of ?d a new2 = 0"
    by auto
  have "writes_of ?d a new1 + writes_of ?d a new2 \<le> 1"
  proof (cases "writes_of ?d a new1 = 1")
    case True
    with new1(3) assms(1) have "fs w1 ?d a \<noteq> None" by simp
    with new2(3) have "writes_of ?d a new2 = 0" by simp
    with True show ?thesis by simp
  next
    case False
    with new1(2) have "writes_of ?d a new1 = 0" by simp
    with new2(2) show ?thesis by simp
  qed
    then show ?thesis
      using new1(1) new2(1,3) by simp
  qed
  show ?thesis using zip each by blast
qed

text \<open>
  On the finished example pipestance a first, forced call writes the three artifacts. A
  second forced call gets past the test for read-only mode, finds the three files and
  writes nothing: the log is the same after it.
\<close>

theorem Immortalize_twice_witness:
  "nodes_apart failingOps mkPipestance zipWorld
   \<and> io_log (snd (snd (Immortalize failingOps True mkPipestance zipWorld)))
       = [FileWritten ''/ps1'' Perf, FileWritten ''/ps1'' FinalState,
          FileWritten ''/ps1'' MetadataZip]
   \<and> fst (Immortalize failingOps True
          (fst (snd (Immortalize failingOps True mkPipestance zipWorld)))
          (snd (snd (Immortalize failingOps True mkPipestance zipWorld)))) = None
   \<and> io_log (snd (snd (Immortalize failingOps True
          (fst (snd (Immortalize failingOps True mkPipestance zipWorld)))
          (snd (snd (Immortalize failingOps True mkPipestance zipWorld))))))
       = [FileWritten ''/ps1'' Perf, FileWritten ''/ps1'' FinalState,
          FileWritten ''/ps1'' MetadataZip]
   \<and> writes_of ''/ps1'' Perf (io_log (snd (snd (Immortalize failingOps True
          (fst (snd (Immortalize failingOps True mkPipestance zipWorld)))
          (snd (snd (Immortalize failingOps True mkPipestance zipWorld))))))) \<le> 1
   \<and> writes_of ''/ps1'' FinalState (io_log (snd (snd (Immortalize failingOps True
          (fst (snd (Immortalize failingOps True mkPipestance zipWorld)))
          (snd (snd (Immortalize failingOps True mkPipestance zipWorld))))))) \<le> 1
   \<and> writes_of ''/ps1'' MetadataZip (io_log (snd (snd (Immortalize failingOps True
          (fst (snd (Immortalize failingOps True mkPipestance zipWorld)))
          (snd (snd (Immortalize failingOps True mkPipestance zipWorld))))))) \<le> 1"
proof -
  have h: "nodes_apart failingOps mkPipestance zipWorld"
    by code_simp
  have l: "io_log (snd (snd (Immortalize failingOps True mkPipestance zipWorld)))
       = [FileWritten ''/ps1'' Perf, FileWritten ''/ps1'' FinalState,
          FileWritten ''/ps1'' MetadataZip]"
    by code_simp
  have e: "fst (Immortalize failingOps True
          (fst (snd (Immortalize failingOps True mkPipestance zipWorld)))
          (snd (snd (Immortalize failingOps True mkPipestance zipWorld)))) = None"
    by code_simp
  have l2: "io_log (snd (snd (Immortalize failingOps True
          (fst (snd (Immortalize failingOps True mkPipestance zipWorld)))
          (snd (snd (Immortalize failingOps True mkPipestance zipWorld))))))
       = [FileWritten ''/ps1'' Perf, FileWritten ''/ps1'' FinalState,
          FileWritten ''/ps1'' MetadataZip]"
    by code_simp
  have p: "Metadata_path (metadata mkPipestance) = ''/ps1''"
    by (simp add: mkPipestance_def mkMetadata_def)
  have z: "io_log zipWorld = []"
    by (simp add: zipWorld_def mkWorld_def)
  have t: "writes_of ''/ps1'' a (io_log (snd (snd (Immortalize failingOps True
          (fst (snd (Immortalize failingOps True mkPipestance zipWorld)))
          (snd (snd (Immortalize failingOps True mkPipestance zipWorld))))))) \<le> 1"
    if "a \<in> {Perf, FinalState, MetadataZip}" for a
    using that Immortalize_twice [OF h, of True
        "fst (Immortalize failingOps True mkPipestance zipWorld)"
        "fst (snd (Immortalize failingOps True mkPipestance zipWorld))"
        "snd (snd (Immortalize failingOps True mkPipestance zipWorld))" True
        "fst (Immortalize failingOps True
          (fst (snd (Immortalize failingOps True mkPipestance zipWorld)))
          (snd (snd (Immortalize failingOps True mkPipestance zipWorld))))"
        "fst (snd (Immortalize failingOps True
          (fst (snd (Immortalize failingOps True mkPipestance zipWorld)))
          (snd (snd (Immortalize failingOps True mkPipestance zipWorld)))))"
        "snd (snd (Immortalize failingOps True
          (fst (snd (Immortalize failingOps True mkPipestance zipWorld)))
          (snd (snd (Immortalize failingOps True mkPipestance zipWorld)))))"]
    by (auto simp add: p z)
  have "writes_of ''/ps1'' Perf (io_log (snd (snd (Immortalize failingOps True
          (fst (snd (Immortalize failingOps True mkPipestance zipWorld)))
          (snd (snd (Immortalize failingOps True mkPipestance zipWorld))))))) \<le> 1"
    "writes_of ''/ps1'' FinalState (io_log (snd (snd (Immortalize failingOps True
          (fst (snd (Immortalize failingOps True mkPipestance zipWorld)))
          (snd (snd (Immortalize failingOps True mkPipestance zipWorld))))))) \<le> 1"
    "writes_of ''/ps1'' MetadataZip (io_log (snd (snd (Immortalize failingOps True
          (fst (snd (Immortalize failingOps True mkPipestance zipWorld)))
          (snd (snd (Immortalize failingOps True mkPipestance zipWorld))))))) \<le> 1"
    by (rule t, simp)+
  with h l e l2 show ?thesis by (simp only: simp_thms)
qed

subsection \<open>C4: the rate limit of the queue probe\<close>

lemma QUEUE_CHECK_LIMIT_pos: "0 < QUEUE_CHECK_LIMIT"
  by (simp add: QUEUE_CHECK_LIMIT_def)

lemma spaced_below: "spaced (c # cs) \<Longrightarrow> x \<in> set cs \<Longrightarrow> x + QUEUE_CHECK_LIMIT \<le> c"
proof (induction cs arbitrary: c)
  case Nil
  then show ?case by simp
next
  case (Cons c' cs)
  show ?case
  proof (cases "x = c'")
    case True
    then show ?thesis using Cons.prems by simp
  next
    case False
    then have "x \<in> set cs" using Cons.prems by simp
    moreover have "spaced (c' # cs)" using Cons.prems by simp
    ultimately have "x + QUEUE_CHECK_LIMIT \<le> c'" by (rule Cons.IH [rotated])
    moreover have "c' + QUEUE_CHECK_LIMIT \<le> c" using Cons.prems by simp
    ultimately show ?thesis using QUEUE_CHECK_LIMIT_pos by linarith
  qed
qed

lemma spaced_nth:
  "spaced cs \<Longrightarrow> i < j \<Longrightarrow> j < length cs \<Longrightarrow> cs ! j + QUEUE_CHECK_LIMIT \<le> cs ! i"
proof (induction cs arbitrary: i j)
  case Nil
  then show ?case by simp
next
  case (Cons c cs)
  from Cons.prems obtain j' where j': "j = Suc j'" by (cases j) auto
  show ?case
  proof (cases i)
    case 0
    have "cs ! j' \<in> set cs" using Cons.prems j' by simp
    with Cons.prems(1) have "cs ! j' + QUEUE_CHECK_LIMIT \<le> c" by (rule spaced_below)
    then show ?thesis using 0 j' by simp
  next
    case (Suc i')
    have "spaced cs" using Cons.prems(1) by (cases cs) simp_all
    then have "cs ! j' + QUEUE_CHECK_LIMIT \<le> cs ! i'"
      using Cons.prems Suc j' by (intro Cons.IH) simp_all
    then show ?thesis using Suc j' by simp
  qed
qed

text \<open>What the two parts of \<open>queryQueue\<close> do to the two bookkeeping fields.\<close>

lemma queryQueue_enter_outcome:
  assumes "queryQueue_enter ops now ps w = (go, ps')"
  shows "lastQueueCheck ps' = lastQueueCheck ps"
    and "\<not> go \<Longrightarrow> ps' = ps"
    and "go \<Longrightarrow> \<not> queueCheckActive ps \<and> queueCheckActive ps'
           \<and> QUEUE_CHECK_LIMIT \<le> time_Since now (lastQueueCheck ps)"
  using assms
  by (auto simp: queryQueue_enter_def queueCheck_begin_def split: if_splits)

lemma queryQueue_prepare_outcome:
  assumes "queryQueue_prepare ops ps w = (task, ps')"
  shows "lastQueueCheck ps' = lastQueueCheck ps"
    and "task = None \<Longrightarrow> \<not> queueCheckActive ps'"
    and "task \<noteq> None \<Longrightarrow> ps' = ps"
  using assms
  by (auto simp: queryQueue_prepare_def Let_def split: if_splits)

lemma queryQueue_skips:
  assumes "queueCheckActive ps \<or> time_Since now (lastQueueCheck ps) < QUEUE_CHECK_LIMIT"
  shows "queryQueue ops now ps w = (None, ps)"
  using assms by (auto simp: queryQueue_def queryQueue_enter_def queueCheck_begin_def)

lemma queueProbe_bookkeeping:
  "queueCheckActive (fst (queueProbe ops t js nq ps w)) = False
   \<and> lastQueueCheck (fst (queueProbe ops t js nq ps w)) = Some t"
  by (simp add: queueProbe_def Let_def split_beta)

lemma sched_inv_initial: "sched_inv (initial t0 ps)"
  by (simp add: sched_inv_def initial_def)

lemma sched_inv_Tick: "sched_inv s \<Longrightarrow> sched_inv (step ops s (Tick d))"
  unfolding sched_inv_def by (simp; fastforce)

lemma sched_inv_Call:
  assumes inv: "sched_inv s"
  shows "sched_inv (step ops s (Call w))"
proof (cases "readOnly (pstance s)")
  case True
  then show ?thesis using inv by simp
next
  case False
  obtain go ps' where c: "queryQueue_enter ops (clock s) (pstance s) w = (go, ps')"
    by (cases "queryQueue_enter ops (clock s) (pstance s) w")
  note o = queryQueue_enter_outcome [OF c]
  show ?thesis
  proof (cases go)
    case no: False
    then have st: "step ops s (Call w) = s\<lparr>pstance := ps'\<rparr>" using False by (simp add: c)
    show ?thesis unfolding st using inv o(2) [OF no] by (simp add: sched_inv_def)
  next
    case yes: True
    let ?p = "\<lparr>phase = Preparing, task_jobsIn = [], task_needsQuery = []\<rparr>"
    have st: "step ops s (Call w) = s\<lparr>pstance := ps', probes := probes s @ [?p]\<rparr>"
      using False yes by (simp add: c)
    from o(3) [OF yes] have g: "\<not> queueCheckActive (pstance s)" "queueCheckActive ps'"
      "QUEUE_CHECK_LIMIT \<le> time_Since (clock s) (lastQueueCheck (pstance s))"
      by simp_all
    from inv g(1) have empty: "probes s = []" by (simp add: sched_inv_def)
    have last: "checkQueue_calls s = []
        \<or> (\<exists>l. lastQueueCheck (pstance s) = Some l \<and> hd (checkQueue_calls s) \<le> l
               \<and> l \<le> clock s)"
      using inv empty by (simp add: sched_inv_def)
    have far: "c + QUEUE_CHECK_LIMIT \<le> clock s" if "c \<in> set (checkQueue_calls s)" for c
    proof -
      from that have ne: "checkQueue_calls s \<noteq> []" by auto
      with last obtain l where l: "lastQueueCheck (pstance s) = Some l"
        "hd (checkQueue_calls s) \<le> l" by auto
      have "c \<le> hd (checkQueue_calls s)"
      proof (cases "checkQueue_calls s")
        case Nil
        with ne show ?thesis by simp
      next
        case (Cons x xs)
        have "spaced (x # xs)" using inv Cons by (simp add: sched_inv_def)
        then have "y \<in> set xs \<Longrightarrow> y + QUEUE_CHECK_LIMIT \<le> x" for y by (rule spaced_below)
        then show ?thesis using that Cons QUEUE_CHECK_LIMIT_pos by fastforce
      qed
      moreover have "l + QUEUE_CHECK_LIMIT \<le> clock s"
        using g(3) l(1) by (simp add: time_Since_def)
      ultimately show ?thesis using l(2) by linarith
    qed
    show ?thesis
      unfolding st using inv empty g(2) far last o(1) by (simp add: sched_inv_def)
  qed
qed

lemma sched_inv_Prepare:
  assumes inv: "sched_inv s"
  shows "sched_inv (step ops s (Prepare i w))"
proof (cases "i < length (probes s) \<and> phase (probes s ! i) = Preparing")
  case False
  then show ?thesis using inv by auto
next
  case True
  then obtain p where p: "probes s = [p]" "i = 0" "phase p = Preparing"
    using inv by (cases "probes s") (auto simp: sched_inv_def)
  obtain task ps' where c: "queryQueue_prepare ops (pstance s) w = (task, ps')"
    by (cases "queryQueue_prepare ops (pstance s) w")
  note o = queryQueue_prepare_outcome [OF c]
  have last: "checkQueue_calls s = []
      \<or> (\<exists>l. lastQueueCheck (pstance s) = Some l \<and> hd (checkQueue_calls s) \<le> l
             \<and> l \<le> clock s)"
    using inv p by (simp add: sched_inv_def)
  show ?thesis
  proof (cases task)
    case None
    have st: "step ops s (Prepare i w) = s\<lparr>pstance := ps', probes := []\<rparr>"
      using p None by (simp add: c)
    show ?thesis
      unfolding st using inv last o(1) o(2) [OF None] by (simp add: sched_inv_def)
  next
    case (Some job)
    obtain jobsIn nq where job: "job = (jobsIn, nq)" by (cases job)
    let ?p = "\<lparr>phase = Launched, task_jobsIn = jobsIn, task_needsQuery = nq\<rparr>"
    have same: "ps' = pstance s" using o(3) Some by simp
    have st: "step ops s (Prepare i w) = s\<lparr>pstance := ps', probes := [?p]\<rparr>"
      using p Some job by (simp add: c)
    show ?thesis
      unfolding st same using inv p last by (simp add: sched_inv_def)
  qed
qed

lemma sched_inv_Invoke:
  assumes inv: "sched_inv s"
  shows "sched_inv (step ops s (Invoke i))"
proof (cases "i < length (probes s) \<and> phase (probes s ! i) = Launched")
  case False
  then show ?thesis using inv by auto
next
  case True
  then obtain p where p: "probes s = [p]" "i = 0" "phase p = Launched"
    using inv by (cases "probes s") (auto simp: sched_inv_def)
  have st: "step ops s (Invoke i)
      = s\<lparr>probes := [p\<lparr>phase := Checking\<rparr>], checkQueue_calls := clock s # checkQueue_calls s\<rparr>"
    using p by simp
  have far: "\<forall>c\<in>set (checkQueue_calls s). c + QUEUE_CHECK_LIMIT \<le> clock s"
    using inv p by (simp add: sched_inv_def)
  have sp: "spaced (clock s # checkQueue_calls s)"
    using inv far by (cases "checkQueue_calls s") (simp_all add: sched_inv_def)
  show ?thesis
    unfolding st using inv p sp by (simp add: sched_inv_def)
qed

lemma sched_inv_Finish:
  assumes inv: "sched_inv s"
  shows "sched_inv (step ops s (Finish i w))"
proof (cases "i < length (probes s) \<and> phase (probes s ! i) = Checking")
  case False
  then show ?thesis using inv by auto
next
  case True
  then obtain p where p: "probes s = [p]" "i = 0"
    using inv by (cases "probes s") (auto simp: sched_inv_def)
  let ?ps = "fst (queueProbe ops (clock s) (task_jobsIn p) (task_needsQuery p) (pstance s) w)"
  have st: "step ops s (Finish i w) = s\<lparr>pstance := ?ps, probes := []\<rparr>"
    using True p by simp
  have hd: "hd (checkQueue_calls s) \<le> clock s" if ne: "checkQueue_calls s \<noteq> []"
  proof -
    have "hd (checkQueue_calls s) \<in> set (checkQueue_calls s)" using ne by simp
    moreover have "\<forall>c\<in>set (checkQueue_calls s). c \<le> clock s"
      using inv by (simp add: sched_inv_def)
    ultimately show ?thesis by blast
  qed
  then have hd': "checkQueue_calls s = [] \<or> hd (checkQueue_calls s) \<le> clock s"
    by blast
  show ?thesis
    unfolding st using inv hd' by (simp add: sched_inv_def queueProbe_bookkeeping)
qed

lemma sched_inv_step: "sched_inv s \<Longrightarrow> sched_inv (step ops s ev)"
  by (cases ev)
    (simp_all only: sched_inv_Tick sched_inv_Call sched_inv_Prepare sched_inv_Invoke
      sched_inv_Finish)

text \<open>
  A call of \<open>CheckHeartbeats\<close> that no other caller disturbs is the two transitions of a
  caller, one after the other.
\<close>

lemma CheckHeartbeats_as_steps:
  assumes "probes s = []"
  shows "pstance (step ops (step ops s (Call w)) (Prepare 0 w))
           = fst (snd (CheckHeartbeats ops (clock s) (pstance s) w))"
    and "probes (step ops (step ops s (Call w)) (Prepare 0 w))
           = (case fst (CheckHeartbeats ops (clock s) (pstance s) w) of
                None \<Rightarrow> []
              | Some (jobsIn, nq) \<Rightarrow>
                  [\<lparr>phase = Launched, task_jobsIn = jobsIn, task_needsQuery = nq\<rparr>])"
proof -
  obtain go ps1 where e: "queryQueue_enter ops (clock s) (pstance s) w = (go, ps1)"
    by (cases "queryQueue_enter ops (clock s) (pstance s) w")
  obtain task ps2 where p: "queryQueue_prepare ops ps1 w = (task, ps2)"
    by (cases "queryQueue_prepare ops ps1 w")
  show "pstance (step ops (step ops s (Call w)) (Prepare 0 w))
           = fst (snd (CheckHeartbeats ops (clock s) (pstance s) w))"
    using assms
    by (cases go; cases task)
      (auto simp: CheckHeartbeats_def queryQueue_def e p split_beta)
  show "probes (step ops (step ops s (Call w)) (Prepare 0 w))
           = (case fst (CheckHeartbeats ops (clock s) (pstance s) w) of
                None \<Rightarrow> []
              | Some (jobsIn, nq) \<Rightarrow>
                  [\<lparr>phase = Launched, task_jobsIn = jobsIn, task_needsQuery = nq\<rparr>])"
    using assms
    by (cases go; cases task)
      (auto simp: CheckHeartbeats_def queryQueue_def e p split_beta)
qed

lemma sched_inv_run: "sched_inv s \<Longrightarrow> sched_inv (run_events ops s evs)"
  unfolding run_events_def
  by (induction evs arbitrary: s) (simp_all add: sched_inv_step)

lemma spaced_tail: "spaced (c # cs) \<Longrightarrow> spaced cs"
  by (cases cs) simp_all

lemma spaced_window:
  "spaced cs \<Longrightarrow> length (filter (\<lambda>c. t \<le> c \<and> c < t + QUEUE_CHECK_LIMIT) cs) \<le> 1"
proof (induction cs)
  case Nil
  then show ?case by simp
next
  case (Cons c cs)
  note tail = spaced_tail [OF Cons.prems]
  show ?case
  proof (cases "t \<le> c \<and> c < t + QUEUE_CHECK_LIMIT")
    case True
    have "\<not> (t \<le> x \<and> x < t + QUEUE_CHECK_LIMIT)" if "x \<in> set cs" for x
      using spaced_below [OF Cons.prems that] True by linarith
    then have "filter (\<lambda>c. t \<le> c \<and> c < t + QUEUE_CHECK_LIMIT) cs = []"
      by (simp add: filter_empty_conv)
    then show ?thesis using True by simp
  next
    case False
    then show ?thesis using Cons.IH [OF tail] by auto
  qed
qed

text \<open>
  C4. However often and in whatever state of the world \<open>CheckHeartbeats\<close>, and with it
  \<open>queryQueue\<close>, is called on a pipestance, and however the calls interleave with each
  other, with the probe task and with the passing of time: at most one queue check is
  under way at any time, so at most one probe task is in flight; any two calls of
  \<open>checkQueue\<close> lie at least five minutes apart, so that no five-minute window holds
  more than one; and a call made while a probe is active, or less than five minutes after
  the last probe completed, starts no probe and leaves the pipestance as it is.
\<close>

theorem queue_check_rate_limit:
  "length (probes (run_events ops (initial t0 ps0) evs)) \<le> 1
   \<and> (\<forall>i j. i < j \<and> j < length (checkQueue_calls (run_events ops (initial t0 ps0) evs)) \<longrightarrow>
         checkQueue_calls (run_events ops (initial t0 ps0) evs) ! j + QUEUE_CHECK_LIMIT
           \<le> checkQueue_calls (run_events ops (initial t0 ps0) evs) ! i)
   \<and> (\<forall>t. length (filter (\<lambda>c. t \<le> c \<and> c < t + QUEUE_CHECK_LIMIT)
                  (checkQueue_calls (run_events ops (initial t0 ps0) evs))) \<le> 1)
   \<and> (queueCheckActive ps \<or> (\<exists>l. lastQueueCheck ps = Some l \<and> now - l < QUEUE_CHECK_LIMIT)
        \<longrightarrow> fst (CheckHeartbeats ops now ps w) = None
          \<and> fst (snd (CheckHeartbeats ops now ps w)) = ps)"
proof -
  let ?s = "run_events ops (initial t0 ps0) evs"
  have inv: "sched_inv ?s"
    by (rule sched_inv_run [OF sched_inv_initial])
  then have sp: "spaced (checkQueue_calls ?s)" and one: "length (probes ?s) \<le> 1"
    by (simp_all add: sched_inv_def)
  have skip: "fst (CheckHeartbeats ops now ps w) = None
          \<and> fst (snd (CheckHeartbeats ops now ps w)) = ps"
    if "queueCheckActive ps \<or> (\<exists>l. lastQueueCheck ps = Some l \<and> now - l < QUEUE_CHECK_LIMIT)"
  proof -
    from that have "queueCheckActive ps
        \<or> time_Since now (lastQueueCheck ps) < QUEUE_CHECK_LIMIT"
      by (auto simp: time_Since_def)
    then have "queryQueue ops now ps w = (None, ps)" by (rule queryQueue_skips)
    then show ?thesis by (simp add: CheckHeartbeats_def)
  qed
  show ?thesis
    using one spaced_nth [OF sp] spaced_window [OF sp] skip by blast
qed

text \<open>
  A locked pipestance with one queued job. The first caller starts a probe, which calls
  \<open>checkQueue\<close> at time 0 and finishes; a caller one nanosecond later is turned away at
  the locked section; five minutes on, of two callers that arrive together the first
  starts the second probe and the other is turned away.
\<close>

theorem queue_check_rate_limit_witness:
  "checkQueue_calls (run_events failingOps (initial 0 lockedPipestance)
      [Call queueWorld, Prepare 0 queueWorld, Invoke 0, Finish 0 queueWorld, Tick 1,
       Call queueWorld, Prepare 0 queueWorld, Invoke 0, Tick 300000000000,
       Call queueWorld, Call queueWorld, Prepare 0 queueWorld, Prepare 1 queueWorld,
       Invoke 0, Invoke 1])
     = [300000000001, 0]
   \<and> length (probes (run_events failingOps (initial 0 lockedPipestance)
      [Call queueWorld, Prepare 0 queueWorld, Invoke 0, Finish 0 queueWorld, Tick 1,
       Call queueWorld, Prepare 0 queueWorld, Invoke 0, Tick 300000000000,
       Call queueWorld, Call queueWorld, Prepare 0 queueWorld, Prepare 1 queueWorld,
       Invoke 0, Invoke 1])) = 1
   \<and> [300000000001, 0::int] ! 1 + QUEUE_CHECK_LIMIT \<le> [300000000001, 0] ! 0"
proof -
  let ?evs = "[Call queueWorld, Prepare 0 queueWorld, Invoke 0, Finish 0 queueWorld, Tick 1,
       Call queueWorld, Prepare 0 queueWorld, Invoke 0, Tick 300000000000,
       Call queueWorld, Call queueWorld, Prepare 0 queueWorld, Prepare 1 queueWorld,
       Invoke 0, Invoke 1]"
  have c: "checkQueue_calls (run_events failingOps (initial 0 lockedPipestance) ?evs)
     = [300000000001, 0]"
    by code_simp
  have p: "length (probes (run_events failingOps (initial 0 lockedPipestance) ?evs)) = 1"
    by code_simp
  show ?thesis
    using c p queue_check_rate_limit [of failingOps 0 lockedPipestance ?evs]
    by (simp add: QUEUE_CHECK_LIMIT_def)
qed

subsection \<open>C9: the probe task leaves the nodes alone\<close>

lemma fold_needsQuery_delete:
  "fold needsQuery_delete queued nq = filter (\<lambda>(k, v). k \<notin> set queued) nq"
proof (induction queued arbitrary: nq)
  case Nil
  then show ?case by simp
next
  case (Cons q queued)
  have "fold needsQuery_delete (q # queued) nq
      = filter (\<lambda>(k, v). k \<notin> set queued) (needsQuery_delete q nq)"
    by (simp add: Cons.IH)
  also have "\<dots> = filter (\<lambda>(k, v). k \<notin> set (q # queued)) nq"
    unfolding needsQuery_delete_def by (induction nq) auto
  finally show ?case .
qed

lemma failNotRunning_at_frame:
  "heap (failNotRunning_at ops entry w) = heap w
   \<and> frontierNodes (failNotRunning_at ops entry w) = frontierNodes w
   \<and> config (failNotRunning_at ops entry w) = config w
   \<and> io_log (failNotRunning_at ops entry w) = io_log w
   \<and> rt (failNotRunning_at ops entry w) = rt w
   \<and> (snd entry \<noteq> Some r \<longrightarrow> metas (failNotRunning_at ops entry w) r = metas w r)"
  by (simp add: failNotRunning_at_def Let_def split_beta split: option.splits)

lemma fold_failNotRunning_at_frame:
  "heap (fold (failNotRunning_at ops) entries w) = heap w
   \<and> frontierNodes (fold (failNotRunning_at ops) entries w) = frontierNodes w
   \<and> config (fold (failNotRunning_at ops) entries w) = config w
   \<and> io_log (fold (failNotRunning_at ops) entries w) = io_log w
   \<and> rt (fold (failNotRunning_at ops) entries w) = rt w
   \<and> (Some r \<notin> snd ` set entries \<longrightarrow> metas (fold (failNotRunning_at ops) entries w) r = metas w r)"
proof (induction entries arbitrary: w)
  case Nil
  then show ?case by simp
next
  case (Cons entry entries)
  show ?case
    using Cons.IH [of "failNotRunning_at ops entry w"] failNotRunning_at_frame [of ops entry w r]
    by auto
qed

text \<open>
  C9. The asynchronous queue-probe task never changes a node's state or any other
  attribute of a node. Whatever \<open>checkQueue\<close> answers, the task leaves the node heap, the
  frontier, the configuration and the log as they were; its effects are the job manager's
  own state behind \<open>checkQueue\<close>, the call of \<open>failNotRunning\<close> on the metadata of
  exactly the jobs that \<open>checkQueue\<close> did not report as queued (on none when the
  pipestance is read-only), and the probe bookkeeping: \<open>queueCheckActive\<close> is cleared and
  \<open>lastQueueCheck\<close> is set.
\<close>

theorem queueProbe_frame:
  "heap (snd (queueProbe ops t jobsIn nq ps w)) = heap w
   \<and> (\<forall>n. state (heap (snd (queueProbe ops t jobsIn nq ps w)) n) = state (heap w n))
   \<and> frontierNodes (snd (queueProbe ops t jobsIn nq ps w)) = frontierNodes w
   \<and> config (snd (queueProbe ops t jobsIn nq ps w)) = config w
   \<and> io_log (snd (queueProbe ops t jobsIn nq ps w)) = io_log w
   \<and> fst (queueProbe ops t jobsIn nq ps w)
       = ps\<lparr>queueCheckActive := False, lastQueueCheck := Some t\<rparr>
   \<and> snd (queueProbe ops t jobsIn nq ps w)
       = (if readOnly ps then w\<lparr>rt := snd (JobManager_checkQueue ops jobsIn (rt w))\<rparr>
          else fold (failNotRunning_at ops)
                 (filter (\<lambda>(jobid, m). jobid \<notin> set (fst (fst (JobManager_checkQueue ops jobsIn (rt w))))) nq)
                 (w\<lparr>rt := snd (JobManager_checkQueue ops jobsIn (rt w))\<rparr>))
   \<and> (\<forall>r. (\<forall>jobid. (jobid, Some r) \<in> set nq \<longrightarrow>
               jobid \<in> set (fst (fst (JobManager_checkQueue ops jobsIn (rt w)))))
          \<longrightarrow> metas (snd (queueProbe ops t jobsIn nq ps w)) r = metas w r)
   \<and> (readOnly ps \<longrightarrow> metas (snd (queueProbe ops t jobsIn nq ps w)) = metas w
                       \<and> fs (snd (queueProbe ops t jobsIn nq ps w)) = fs w)"
proof -
  let ?q = "fst (fst (JobManager_checkQueue ops jobsIn (rt w)))"
  let ?w1 = "w\<lparr>rt := snd (JobManager_checkQueue ops jobsIn (rt w))\<rparr>"
  let ?missing = "filter (\<lambda>(jobid, m). jobid \<notin> set ?q) nq"
  let ?w2 = "if readOnly ps then ?w1 else fold (failNotRunning_at ops) ?missing ?w1"
  have res: "queueProbe ops t jobsIn nq ps w
      = (ps\<lparr>queueCheckActive := False, lastQueueCheck := Some t\<rparr>, ?w2)"
    by (simp add: queueProbe_def Let_def split_beta fold_needsQuery_delete)
  note fr = fold_failNotRunning_at_frame [of ops ?missing ?w1]
  have h: "heap ?w2 = heap w" "frontierNodes ?w2 = frontierNodes w" "config ?w2 = config w"
    "io_log ?w2 = io_log w"
    using fr by simp_all
  have m: "metas ?w2 r = metas w r"
    if "\<forall>jobid. (jobid, Some r) \<in> set nq \<longrightarrow> jobid \<in> set ?q" for r
  proof -
    from that have "Some r \<notin> snd ` set ?missing" by force
    with fold_failNotRunning_at_frame [of ops ?missing ?w1 r] show ?thesis by simp
  qed
  show ?thesis
    unfolding res using h m by simp
qed

text \<open>
  On the example, where the job manager knows nothing of job 4711, the probe leaves the
  marker in the job's metadata directory and the node is still \<open>Running\<close>.
\<close>

theorem queueProbe_frame_witness:
  "state (heap queueWorld 0) = Running
   \<and> state (heap (snd (queueProbe failingOps 5 [''4711''] [(''4711'', Some 0)]
        lockedPipestance queueWorld)) 0) = Running
   \<and> fs (snd (queueProbe failingOps 5 [''4711''] [(''4711'', Some 0)]
        lockedPipestance queueWorld)) ''/ps1/PIPE/STAGE/fork0'' Errors
       = Some ''job 4711 is not running''
   \<and> lastQueueCheck (fst (queueProbe failingOps 5 [''4711''] [(''4711'', Some 0)]
        lockedPipestance queueWorld)) = Some 5"
proof -
  have s: "state (heap queueWorld 0) = Running"
    by (simp add: queueWorld_def mkNode_def)
  have f: "fs (snd (queueProbe failingOps 5 [''4711''] [(''4711'', Some 0)]
        lockedPipestance queueWorld)) ''/ps1/PIPE/STAGE/fork0'' Errors
       = Some ''job 4711 is not running''"
    by code_simp
  note frame = queueProbe_frame [of failingOps 5 "[''4711'']" "[(''4711'', Some 0)]"
        lockedPipestance queueWorld]
  from frame have a: "state (heap (snd (queueProbe failingOps 5 [''4711''] [(''4711'', Some 0)]
        lockedPipestance queueWorld)) 0) = state (heap queueWorld 0)"
    by blast
  from frame have b: "fst (queueProbe failingOps 5 [''4711''] [(''4711'', Some 0)]
        lockedPipestance queueWorld)
      = lockedPipestance\<lparr>queueCheckActive := False, lastQueueCheck := Some 5\<rparr>"
    by blast
  show ?thesis
    using s f a b by simp
qed

subsection \<open>C3: duplicate includes\<close>













text \<open>A result, once there, is the same for every larger count.\<close>

lemma checkIncludes_more:
  "checkIncludes n pr src fullPath inc = Some errs \<Longrightarrow>
     checkIncludes (n + k) pr src fullPath inc = Some errs"
  "checkParents n pr parents fullPath inc = Some errs \<Longrightarrow>
     checkParents (n + k) pr parents fullPath inc = Some errs"
proof (induction n pr src fullPath inc and n pr parents fullPath inc arbitrary: errs and errs
    rule: checkIncludes_checkParents.induct)
  case (1 pr src fullPath inc)
  then show ?case by simp
next
  case (2 n pr src fullPath inc)
  then show ?case by (auto split: option.splits if_splits)
next
  case (3 n pr fullPath inc)
  then show ?case by simp
next
  case (4 n pr parent parents fullPath inc)
  from "4.prems" obtain e1 e2 where
    e: "checkIncludes n pr (File parent) fullPath inc = Some e1"
      "checkParents n pr parents fullPath inc = Some e2" "errs = e1 @ e2"
    by (auto split: option.splits)
  from "4.IH"(1) [OF e(1)] "4.IH"(2) [OF e(1) e(2)] show ?case
    by (simp add: e(3))
qed

lemma parse_more:
  "parseSource n env src G incPaths pr = Some r \<Longrightarrow>
     parseSource (n + k) env src G incPaths pr = Some r"
  "getIncludes n env G incs incPaths seen pr = Some r \<Longrightarrow>
     getIncludes (n + k) env G incs incPaths seen pr = Some r"
  "includeFile n env G inc absPath incPaths pr = Some r \<Longrightarrow>
     includeFile (n + k) env G inc absPath incPaths pr = Some r"
proof (induction n env src G incPaths pr and n env G incs incPaths seen pr
    and n env G inc absPath incPaths pr
    arbitrary: r and r and r
    rule: parseSource_getIncludes_includeFile.induct)
  case (1 env src srcFile incPaths processed)
  then show ?case by simp
next
  case (2 n env src srcFile incPaths processed)
  show ?case
  proof (cases "yaccParse env src")
    case None
    with "2.prems" show ?thesis by simp
  next
    case (Some ds)
    with "2.prems" have
      "getIncludes n env srcFile (includes_of srcFile ds) (path_Dir env srcFile # incPaths) []
         processed = Some r" by simp
    from "2.IH" [OF Some this] show ?thesis using Some by simp
  qed
next
  case (3 n env srcFile incPaths seen processed)
  then show ?case by simp
next
  case (4 n env srcFile inc incs incPaths seen processed)
  show ?case
  proof (cases "util_SearchPaths env (Include_Value inc) incPaths")
    case None
    with "4.prems" obtain errs2 pr' where
      g: "getIncludes n env srcFile incs incPaths seen processed = Some (errs2, pr')"
        "r = (FileNotFoundError (Include_Value inc) (Include_Loc inc) # errs2, pr')"
      by (auto split: option.splits)
    from "4.IH"(1) [OF None g(1)] show ?thesis using None by (simp add: g(2))
  next
    case (Some ifpath)
    from "4.prems" Some obtain errs1 pr1 errs2 pr' where
      g: "includeFile n env srcFile inc (path_Abs env ifpath) incPaths processed
            = Some (errs1, pr1)"
        "getIncludes n env srcFile incs incPaths (path_Abs env ifpath # seen) pr1
            = Some (errs2, pr')"
        "r = ((if path_Abs env ifpath \<in> set seen
               then [IncludedMultipleTimes (Include_Value inc) (Include_Loc inc)]
               else []) @ errs1 @ errs2, pr')"
      by (auto split: option.splits)
    from "4.IH"(2) [OF Some g(1)] "4.IH"(3) [OF Some g(1) refl g(2)] show ?thesis
      using Some by (simp add: g(3))
  qed
next
  case (5 n env srcFile inc absPath incPaths processed)
  show ?case
  proof (cases "absPath = srcFile")
    case True
    with "5.prems" show ?thesis by simp
  next
    case neq: False
    show ?thesis
    proof (cases "processed absPath")
      case (Some iSrcFile)
      let ?pr1 = "processed(absPath \<mapsto>
          iSrcFile\<lparr>IncludedFrom := IncludedFrom iSrcFile @ [Include_Loc inc]\<rparr>)"
      from "5.prems" neq Some obtain errs where
        c: "checkIncludes n ?pr1 srcFile absPath (Include_Loc inc) = Some errs" "r = (errs, ?pr1)"
        by (auto simp: Let_def split: option.splits)
      from checkIncludes_more(1) [OF c(1)]
      have more: "checkIncludes (n + k) ?pr1 srcFile absPath (Include_Loc inc) = Some errs" .
      show ?thesis
        using neq Some by (simp add: Let_def c(2) more)
    next
      case None
      let ?pr1 = "processed(absPath \<mapsto>
          \<lparr>FileName = Include_Value inc, IncludedFrom = [Include_Loc inc]\<rparr>)"
      show ?thesis
      proof (cases "ioutil_ReadFile env absPath")
        case nofile: None
        with "5.prems" neq None show ?thesis by (simp add: Let_def)
      next
        case (Some b)
        with "5.prems" neq None obtain dir rest where
          ip: "incPaths = dir # rest"
          and p: "parseSource n env b absPath rest ?pr1 = Some r"
          by (auto simp: Let_def split: list.splits)
        from "5.IH" [OF neq None refl Some ip p]
        have more: "parseSource (n + k) env b absPath rest ?pr1 = Some r" .
        show ?thesis
          using neq None Some ip by (simp add: Let_def more)
      qed
    qed
  qed
qed



text \<open>
  On an include graph without cycles the climb of \<open>checkIncludes\<close> ends, since it goes
  to files of higher and higher rank below the bound, and so does parsing, since it
  descends to files of lower and lower rank.
\<close>

lemma checkIncludes_returns:
  "ranked rank B pr \<Longrightarrow> pr src \<noteq> None \<Longrightarrow> rank src \<le> B \<Longrightarrow> B - rank src < n \<Longrightarrow>
     checkIncludes n pr src fullPath inc \<noteq> None"
  "ranked rank B pr \<Longrightarrow>
     \<forall>loc\<in>set parents. pr (File loc) \<noteq> None \<and> rank (File loc) \<le> B \<and> B - rank (File loc) < n \<Longrightarrow>
     checkParents n pr parents fullPath inc \<noteq> None"
proof (induction n pr src fullPath inc and n pr parents fullPath inc
    rule: checkIncludes_checkParents.induct)
  case (1 pr src fullPath inc)
  then show ?case by simp
next
  case (2 n pr src fullPath inc)
  from "2.prems"(2) obtain f where f: "pr src = Some f" by auto
  show ?case
  proof (cases "fullPath = src")
    case True
    then show ?thesis using f by simp
  next
    case False
    have "\<forall>loc\<in>set (IncludedFrom f).
        pr (File loc) \<noteq> None \<and> rank (File loc) \<le> B \<and> B - rank (File loc) < n"
    proof
      fix loc assume "loc \<in> set (IncludedFrom f)"
      with "2.prems"(1) f have r: "pr (File loc) \<noteq> None" "rank src < rank (File loc)"
        "rank (File loc) \<le> B" unfolding ranked_def by blast+
      with "2.prems"(4) show "pr (File loc) \<noteq> None \<and> rank (File loc) \<le> B \<and> B - rank (File loc) < n"
        by auto
    qed
    from "2.IH" [OF f False "2.prems"(1) this] show ?thesis using f False by simp
  qed
next
  case (3 n pr fullPath inc)
  then show ?case by simp
next
  case (4 n pr parent parents fullPath inc)
  from "4.prems"(2) have p: "pr (File parent) \<noteq> None" "rank (File parent) \<le> B"
    "B - rank (File parent) < n"
    and ps: "\<forall>loc\<in>set parents. pr (File loc) \<noteq> None \<and> rank (File loc) \<le> B \<and> B - rank (File loc) < n"
    by simp_all
  from "4.IH"(1) [OF "4.prems"(1) p] obtain e1 where
    e1: "checkIncludes n pr (File parent) fullPath inc = Some e1" by auto
  from "4.IH"(2) [OF e1 "4.prems"(1) ps] show ?case using e1 by auto
qed

lemma ranked_add:
  assumes r: "ranked rank B pr" and G: "pr G \<noteq> None" "rank G \<le> B" and lt: "rank p < rank G"
    and loc: "File loc = G"
    and f': "IncludedFrom f' = (case pr p of None \<Rightarrow> [] | Some f \<Rightarrow> IncludedFrom f) @ [loc]"
  shows "ranked rank B (pr(p \<mapsto> f'))"
  unfolding ranked_def
proof (intro allI impI ballI)
  fix q g l
  assume q: "(pr(p \<mapsto> f')) q = Some g" and l: "l \<in> set (IncludedFrom g)"
  show "(pr(p \<mapsto> f')) (File l) \<noteq> None \<and> rank q < rank (File l) \<and> rank (File l) \<le> B"
  proof (cases "q = p")
    case True
    with q have g: "g = f'" by simp
    show ?thesis
    proof (cases "l = loc")
      case True
      then show ?thesis using G lt loc \<open>q = p\<close> by simp
    next
      case False
      with l g f' obtain f where f: "pr p = Some f" "l \<in> set (IncludedFrom f)"
        by (cases "pr p") auto
      with r have "pr (File l) \<noteq> None \<and> rank p < rank (File l) \<and> rank (File l) \<le> B"
        unfolding ranked_def by blast
      then show ?thesis using \<open>q = p\<close> by simp
    qed
  next
    case False
    with q have "pr q = Some g" by simp
    with r l have "pr (File l) \<noteq> None \<and> rank q < rank (File l) \<and> rank (File l) \<le> B"
      unfolding ranked_def by blast
    then show ?thesis by simp
  qed
qed

lemma parse_returns:
  "acyclic_includes env rank \<Longrightarrow>
   (\<forall>ds. yaccParse env src = Some ds \<longrightarrow> descends env rank G ds) \<Longrightarrow>
   ranked rank B pr \<Longrightarrow> pr G \<noteq> None \<Longrightarrow> rank G \<le> B \<Longrightarrow> B + rank G + 2 \<le> n \<Longrightarrow>
     \<exists>errs pr'. parseSource n env src G incPaths pr = Some (errs, pr')
        \<and> ranked rank B pr' \<and> (\<forall>p. pr p \<noteq> None \<longrightarrow> pr' p \<noteq> None)"
  "acyclic_includes env rank \<Longrightarrow>
   (\<forall>inc\<in>set incs. File (Include_Loc inc) = G \<and>
      (\<forall>ip ifpath. util_SearchPaths env (Include_Value inc) ip = Some ifpath \<longrightarrow>
         path_Abs env ifpath \<noteq> G \<longrightarrow> rank (path_Abs env ifpath) < rank G)) \<Longrightarrow>
   incPaths \<noteq> [] \<Longrightarrow>
   ranked rank B pr \<Longrightarrow> pr G \<noteq> None \<Longrightarrow> rank G \<le> B \<Longrightarrow> B + rank G < n \<Longrightarrow>
     \<exists>errs pr'. getIncludes n env G incs incPaths seen pr = Some (errs, pr')
        \<and> ranked rank B pr' \<and> (\<forall>p. pr p \<noteq> None \<longrightarrow> pr' p \<noteq> None)"
  "acyclic_includes env rank \<Longrightarrow>
   File (Include_Loc inc) = G \<Longrightarrow> (absPath \<noteq> G \<longrightarrow> rank absPath < rank G) \<Longrightarrow>
   incPaths \<noteq> [] \<Longrightarrow>
   ranked rank B pr \<Longrightarrow> pr G \<noteq> None \<Longrightarrow> rank G \<le> B \<Longrightarrow> B + rank G < n \<Longrightarrow>
     \<exists>errs pr'. includeFile n env G inc absPath incPaths pr = Some (errs, pr')
        \<and> ranked rank B pr' \<and> (\<forall>p. pr p \<noteq> None \<longrightarrow> pr' p \<noteq> None)"
proof (induction n env src G incPaths pr and n env G incs incPaths seen pr
    and n env G inc absPath incPaths pr
    rule: parseSource_getIncludes_includeFile.induct)
  case (1 env src srcFile incPaths processed)
  then show ?case by simp
next
  case (2 n env src srcFile incPaths processed)
  show ?case
  proof (cases "yaccParse env src")
    case None
    then show ?thesis using "2.prems"(3) by simp
  next
    case (Some ds)
    with "2.prems"(2) have d: "descends env rank srcFile ds" by simp
    have own: "\<forall>inc\<in>set (includes_of srcFile ds). File (Include_Loc inc) = srcFile \<and>
      (\<forall>ip ifpath. util_SearchPaths env (Include_Value inc) ip = Some ifpath \<longrightarrow>
         path_Abs env ifpath \<noteq> srcFile \<longrightarrow> rank (path_Abs env ifpath) < rank srcFile)"
      using d unfolding descends_def includes_of_def by (auto simp: split_beta)
    have ne: "path_Dir env srcFile # incPaths \<noteq> []" by simp
    have n: "B + rank srcFile < n" using "2.prems"(6) by simp
    from "2.IH" [OF Some "2.prems"(1) own ne "2.prems"(3,4,5) n] show ?thesis
      using Some by simp
  qed
next
  case (3 n env srcFile incPaths seen processed)
  then show ?case by simp
next
  case (4 n env srcFile inc incs incPaths seen processed)
  from "4.prems"(2) have own: "File (Include_Loc inc) = srcFile"
    and desc: "\<And>ip ifpath. util_SearchPaths env (Include_Value inc) ip = Some ifpath \<Longrightarrow>
         path_Abs env ifpath \<noteq> srcFile \<Longrightarrow> rank (path_Abs env ifpath) < rank srcFile"
    and rest: "\<forall>inc\<in>set incs. File (Include_Loc inc) = srcFile \<and>
      (\<forall>ip ifpath. util_SearchPaths env (Include_Value inc) ip = Some ifpath \<longrightarrow>
         path_Abs env ifpath \<noteq> srcFile \<longrightarrow> rank (path_Abs env ifpath) < rank srcFile)"
    by simp_all
  show ?case
  proof (cases "util_SearchPaths env (Include_Value inc) incPaths")
    case None
    from "4.IH"(1) [OF None "4.prems"(1) rest "4.prems"(3,4,5,6,7)] show ?thesis
      using None by auto
  next
    case (Some ifpath)
    have lt: "path_Abs env ifpath \<noteq> srcFile \<longrightarrow> rank (path_Abs env ifpath) < rank srcFile"
      using desc [OF Some] by simp
    from "4.IH"(2) [OF Some "4.prems"(1) own lt "4.prems"(3,4,5,6,7)] obtain errs1 pr1 where
      i: "includeFile n env srcFile inc (path_Abs env ifpath) incPaths processed = Some (errs1, pr1)"
        "ranked rank B pr1" "\<forall>p. processed p \<noteq> None \<longrightarrow> pr1 p \<noteq> None" by blast
    have reg1: "pr1 srcFile \<noteq> None" using i(3) "4.prems"(5) by simp
    from "4.IH"(3) [OF Some i(1) refl "4.prems"(1) rest "4.prems"(3) i(2) reg1 "4.prems"(6,7)]
    obtain errs2 pr2 where
      g: "getIncludes n env srcFile incs incPaths (path_Abs env ifpath # seen) pr1 = Some (errs2, pr2)"
        "ranked rank B pr2" "\<forall>p. pr1 p \<noteq> None \<longrightarrow> pr2 p \<noteq> None" by blast
    show ?thesis using Some i(1,3) g by simp
  qed
next
  case (5 n env srcFile inc absPath incPaths processed)
  show ?case
  proof (cases "absPath = srcFile")
    case True
    then show ?thesis using "5.prems"(5) by simp
  next
    case neq: False
    with "5.prems"(3) have lt: "rank absPath < rank srcFile" by simp
    show ?thesis
    proof (cases "processed absPath")
      case (Some iSrcFile)
      let ?f = "iSrcFile\<lparr>IncludedFrom := IncludedFrom iSrcFile @ [Include_Loc inc]\<rparr>"
      let ?pr1 = "processed(absPath \<mapsto> ?f)"
      have r1: "ranked rank B ?pr1"
        by (rule ranked_add [OF "5.prems"(5,6,7) lt "5.prems"(2)]) (simp add: Some)
      have reg1: "?pr1 srcFile \<noteq> None" using "5.prems"(6) by simp
      have "B - rank srcFile < n" using "5.prems"(8) by simp
      then have "checkIncludes n ?pr1 srcFile absPath (Include_Loc inc) \<noteq> None"
        by (rule checkIncludes_returns(1) [OF r1 reg1 "5.prems"(7)])
      then obtain errs where
        c: "checkIncludes n ?pr1 srcFile absPath (Include_Loc inc) = Some errs"
        by blast
      have "includeFile n env srcFile inc absPath incPaths processed = Some (errs, ?pr1)"
        using neq Some c by (simp add: Let_def)
      then show ?thesis using r1 by auto
    next
      case None
      let ?f = "\<lparr>FileName = Include_Value inc, IncludedFrom = [Include_Loc inc]\<rparr>"
      let ?pr1 = "processed(absPath \<mapsto> ?f)"
      have r1: "ranked rank B ?pr1"
        by (rule ranked_add [OF "5.prems"(5,6,7) lt "5.prems"(2)]) (simp add: None)
      have mono: "\<forall>p. processed p \<noteq> None \<longrightarrow> ?pr1 p \<noteq> None" by simp
      show ?thesis
      proof (cases "ioutil_ReadFile env absPath")
        case nofile: None
        have "includeFile n env srcFile inc absPath incPaths processed
            = Some ([ReadFileError absPath (Include_Loc inc)], ?pr1)"
          using neq None nofile by (simp add: Let_def)
        then show ?thesis using r1 by auto
      next
        case (Some b)
        from "5.prems"(4) obtain dir rest where ip: "incPaths = dir # rest"
          by (cases incPaths) auto
        have d: "\<forall>ds. yaccParse env b = Some ds \<longrightarrow> descends env rank absPath ds"
          using "5.prems"(1) Some unfolding acyclic_includes_def by blast
        have reg1: "?pr1 absPath \<noteq> None" by simp
        have rk: "rank absPath \<le> B" using lt "5.prems"(7) by simp
        have n: "B + rank absPath + 2 \<le> n" using lt "5.prems"(8) by simp
        from "5.IH" [OF neq None refl Some ip "5.prems"(1) d r1 reg1 rk n]
        obtain errs pr' where
          p: "parseSource n env b absPath rest ?pr1 = Some (errs, pr')"
            "ranked rank B pr'" "\<forall>p. ?pr1 p \<noteq> None \<longrightarrow> pr' p \<noteq> None" by blast
        have "includeFile n env srcFile inc absPath incPaths processed = Some (errs, pr')"
          using neq None Some ip p(1) by (simp add: Let_def)
        moreover have "\<forall>p. processed p \<noteq> None \<longrightarrow> pr' p \<noteq> None"
          using p(3) by (metis fun_upd_apply option.distinct(1))
        ultimately show ?thesis using p(2) by auto
      qed
    qed
  qed
qed

text \<open>
  So \<open>ParseSourceBytes\<close> returns on an include graph without cycles: the map it starts
  from holds the top file alone, included from nowhere.
\<close>

lemma ParseSourceBytes_returns:
  assumes "acyclic_includes env rank"
    and "\<forall>ds. yaccParse env src = Some ds \<longrightarrow> descends env rank (path_Abs env srcPath) ds"
  shows "ParseSourceBytes (2 * rank (path_Abs env srcPath) + 2 + k) env src srcPath incPaths
           \<noteq> None"
proof -
  let ?top = "path_Abs env srcPath"
  let ?pr = "(\<lambda>p. None)(?top \<mapsto> \<lparr>FileName = path_Base env srcPath, IncludedFrom = []\<rparr>)"
  have r: "ranked rank (rank ?top) ?pr" by (simp add: ranked_def)
  have reg: "?pr ?top \<noteq> None" by simp
  have n: "rank ?top + rank ?top + 2 \<le> 2 * rank ?top + 2 + k" by simp
  from parse_returns(1) [OF assms(1,2) r reg order_refl n, of incPaths]
  have "parseSource (2 * rank ?top + 2 + k) env src ?top incPaths ?pr \<noteq> None" by blast
  then show ?thesis unfolding ParseSourceBytes_def Let_def .
qed

text \<open>The example graphs \<open>twice\<close> and \<open>diamond\<close> have no cycles.\<close>

lemma mkEnv_descends:
  assumes "\<forall>name\<in>set names. name \<in> fst ` set files \<longrightarrow>
             mkRank ranks (''/m/'' @ name) < mkRank ranks p"
  shows "descends (mkEnv files) (mkRank ranks) p (zip names [1 ..< Suc (length names)])"
  unfolding descends_def
proof (intro ballI allI impI)
  fix d incPaths ifpath
  assume d: "d \<in> set (zip names [1 ..< Suc (length names)])"
    and s: "util_SearchPaths (mkEnv files) (fst d) incPaths = Some ifpath"
  from d have n: "fst d \<in> set names" by (metis in_set_zipE prod.collapse)
  from s have i: "fst d \<in> fst ` set files" "ifpath = ''/m/'' @ fst d"
    by (auto simp: mkEnv_def split: if_splits)
  with assms n show "mkRank ranks (path_Abs (mkEnv files) ifpath) < mkRank ranks p"
    by (simp add: mkEnv_def)
qed

lemma mkEnv_acyclic:
  assumes "\<forall>f names. map_of files f = Some names \<longrightarrow>
     (\<forall>name\<in>set names. name \<in> fst ` set files \<longrightarrow>
        mkRank ranks (''/m/'' @ name) < (case map_of ranks f of None \<Rightarrow> 0 | Some r \<Rightarrow> r))"
  shows "acyclic_includes (mkEnv files) (mkRank ranks)"
  unfolding acyclic_includes_def
proof (intro allI impI)
  fix p b ds
  assume r: "ioutil_ReadFile (mkEnv files) p = Some b" and y: "yaccParse (mkEnv files) b = Some ds"
  from r have m: "map_of files (drop 3 p) = Some b" by (simp add: mkEnv_def)
  from y have ds: "ds = zip b [1 ..< Suc (length b)]" by (simp add: mkEnv_def)
  have "\<forall>name\<in>set b. name \<in> fst ` set files \<longrightarrow>
      mkRank ranks (''/m/'' @ name) < mkRank ranks p"
    using assms m by (simp add: mkRank_def)
  then show "descends (mkEnv files) (mkRank ranks) p ds"
    unfolding ds by (rule mkEnv_descends)
qed


lemma diamond_acyclic:
  "acyclic_includes (mkEnv diamond) (mkRank [(''a.mro'', 2), (''b.mro'', 1), (''c.mro'', 1)])"
  by (rule mkEnv_acyclic) (auto simp: diamond_def mkRank_def split: if_splits)




text \<open>
  Without the condition on the include graph parsing need not return: between two files
  that include each other \<open>checkIncludes\<close> climbs for ever when asked about a third.
\<close>

lemma checkIncludes_climbs:
  assumes "map_option (\<lambda>f. map File (IncludedFrom f)) (pr A) = Some [B]"
    and "map_option (\<lambda>f. map File (IncludedFrom f)) (pr B) = Some [A]"
    and "C \<noteq> A" and "C \<noteq> B"
  shows "checkIncludes n pr A C inc = None \<and> checkIncludes n pr B C inc = None"
proof (induction n)
  case 0
  then show ?case by simp
next
  case (Suc n)
  from assms(1) obtain fa la where a: "pr A = Some fa" "IncludedFrom fa = [la]" "File la = B"
    by (auto simp: map_eq_Cons_conv)
  from assms(2) obtain fb lb where b: "pr B = Some fb" "IncludedFrom fb = [lb]" "File lb = A"
    by (auto simp: map_eq_Cons_conv)
  show ?case using Suc a b assms(3,4) by simp
qed

lemma cyclic_never_returns:
  "ParseSourceBytes n (mkEnv cyclic) [''c.mro'', ''b.mro''] ''/m/a.mro'' [] = None"
proof -
  let ?parse = "\<lambda>n. ParseSourceBytes n (mkEnv cyclic) [''c.mro'', ''b.mro''] ''/m/a.mro'' []"
  have env: "util_SearchPaths (mkEnv cyclic) name paths
        = (if name \<in> {''a.mro'', ''b.mro'', ''c.mro''} \<and> ''/m'' \<in> set paths
           then Some (''/m/'' @ name) else None)"
    "path_Abs (mkEnv cyclic) p = p" "path_Dir (mkEnv cyclic) p = ''/m''"
    "path_Base (mkEnv cyclic) ''/m/a.mro'' = ''a.mro''"
    "ioutil_ReadFile (mkEnv cyclic) ''/m/b.mro'' = Some [''a.mro'', ''c.mro'']"
    "ioutil_ReadFile (mkEnv cyclic) ''/m/c.mro'' = Some []"
    "yaccParse (mkEnv cyclic) [''c.mro'', ''b.mro''] = Some [(''c.mro'', 1), (''b.mro'', 2)]"
    "yaccParse (mkEnv cyclic) [''a.mro'', ''c.mro''] = Some [(''a.mro'', 1), (''c.mro'', 2)]"
    "yaccParse (mkEnv cyclic) [] = Some []"
    for name paths p
    by (auto simp: mkEnv_def cyclic_def upt_conv_Cons)
  have big: "?parse (Suc (Suc (Suc m))) = None" for m
  proof (cases m)
    case 0
    then show ?thesis
      by (simp add: ParseSourceBytes_def Let_def env includes_of_def)
  next
    case (Suc m')
    show ?thesis
      unfolding Suc
      by (simp add: ParseSourceBytes_def Let_def env includes_of_def checkIncludes_climbs)
  qed
  show ?thesis
  proof (rule ccontr)
    assume "?parse n \<noteq> None"
    then obtain r where r: "?parse n = Some r" by auto
    then have "?parse (n + 3) = Some r"
      unfolding ParseSourceBytes_def Let_def by (rule parse_more(1))
    moreover have "n + 3 = Suc (Suc (Suc n))" by simp
    ultimately show False using big [of n] by simp
  qed
qed

end
